theory Spec2Isabelle
  imports Main "HOL-Library.Word" "HOL-Library.Sublist"
begin

unbundle bit_operations_syntax

section \<open>Wayland/DRM helpers of libva: \<^verbatim>\<open>va/wayland/va_wayland_drm.c\<close>\<close>

text \<open>
  The file is glue between three foreign interfaces: the Wayland client library, libdrm and
  the dynamic loader. The embedding keeps the control flow of every function of the file and
  makes the foreign world explicit:
  \<^item> the display context (the structures reached from \<^verbatim>\<open>pDisplayContext\<close>) is one record,
    passed in and returned;
  \<^item> the answers of the foreign functions are read from an environment record;
  \<^item> every foreign call is appended, with its result, to a log kept in the context, so that
    the order of the calls and the release of resources can be stated;
  \<^item> dereferencing a null \<^verbatim>\<open>ctx->drm_state\<close> is undefined behaviour: the functions that can
    do it return \<open>None\<close> there.
\<close>

subsection \<open>Data\<close>

text \<open>\<^verbatim>\<open>struct drm_state\<close> (va_drmcommon.h): the two \<^verbatim>\<open>int\<close> fields the file touches. Both are
  only assigned and compared with zero, so unbounded integers lose nothing.\<close>

record drm_state =
  fd :: int
  auth_type :: int

text \<open>\<^verbatim>\<open>drmVersion\<close> (xf86drm.h): the driver name and its reported length. The name is the
  byte string before the terminating NUL.\<close>

record drmVersion =
  name_len :: int
  vname :: string

text \<open>\<^verbatim>\<open>struct driver_name_map\<close>; a null \<^verbatim>\<open>const char *\<close> is \<open>None\<close>.\<close>

record driver_name_map =
  key :: "string option"
  key_len :: int
  name :: "string option"

text \<open>The value of a function pointer stored in one of the two hooks.\<close>

datatype hook = Fn_va_wayland_drm_finalize | Fn_va_DisplayContextGetDriverName | Fn_other nat

text \<open>Modelled from the spec: va.h, which defines the status macros, is not among the sources.
  The three codes the file returns; the spec calls the two error codes distinct (in the
  header they are 0, 2 and 0xFFFFFFFF).\<close>

datatype VAStatus =
  VA_STATUS_SUCCESS | VA_STATUS_ERROR_ALLOCATION_FAILED | VA_STATUS_ERROR_UNKNOWN

text \<open>The events of the \<^verbatim>\<open>wl_drm\<close> interface, in the order of \<^verbatim>\<open>drm_listener\<close>.\<close>

datatype wl_drm_event = Ev_device string | Ev_format "32 word" | Ev_authenticated

text \<open>Foreign calls with their arguments and results, and the delivery of an event to the
  listener. Pointers are numbers; a null result is \<open>None\<close>.\<close>

datatype call =
    Call_calloc bool
  | Call_wl_display_get_global "32 word"
  | Call_wl_display_roundtrip
  | Call_dlopen "nat option"
  | Call_dlsym nat "nat option"
  | Call_wl_display_bind "32 word" nat "nat option"
  | Call_wl_drm_add_listener nat
  | Delivered wl_drm_event
  | Call_stat string "32 word option"
  | Call_open string int
  | Call_drmGetMagic int int
  | Call_wl_drm_authenticate "nat option" "32 word"
  | Call_wl_drm_destroy nat
  | Call_dlclose nat
  | Call_close int
  | Call_free drm_state
  | Call_drmGetVersion int "drmVersion option"
  | Call_drmFreeVersion drmVersion
  | Call_strdup string bool

text \<open>
  The display context. \<^verbatim>\<open>pDisplayContext->pDriverContext\<close> and \<^verbatim>\<open>pDisplayContext->opaque\<close> are
  never reassigned by the file, so the fields of the three structures are kept side by side:
  \<open>drm\<close>, \<open>is_authenticated\<close>, \<open>libEGL_handle\<close> and \<open>drm_interface\<close> are those of
  \<^verbatim>\<open>wl_ctx->backend.drm\<close>, \<open>finalize\<close> is \<^verbatim>\<open>wl_ctx->finalize\<close>, \<open>vaGetDriverName\<close> is the hook of
  the display context and \<open>drm_state\<close> is the pointer \<^verbatim>\<open>ctx->drm_state\<close> with the structure it
  points to. \<open>calls\<close> is the log.
\<close>

record display_context =
  drm :: "nat option"
  is_authenticated :: bool
  libEGL_handle :: "nat option"
  drm_interface :: "nat option"
  finalize :: "hook option"
  vaGetDriverName :: "hook option"
  drm_state :: "drm_state option"
  calls :: "call list"

text \<open>
  The answers of the foreign world. \<open>calloc_ok\<close>: the allocation of the state succeeds.
  \<open>get_global_1\<close>, \<open>get_global_2\<close>: the identifier found by the first registry query and by
  the query after the round-trip (0: absent). \<open>events_1\<close>, \<open>events_2\<close>: the \<^verbatim>\<open>wl_drm\<close> events
  dispatched by the two round-trips that follow the registration of the listener.
  \<open>stat_res\<close>: \<^verbatim>\<open>st_mode\<close> of a path, \<open>None\<close> when \<^verbatim>\<open>stat\<close> fails. \<open>open_res\<close>: the descriptor,
  \<open>None\<close> when \<^verbatim>\<open>open\<close> fails. \<open>getmagic_res\<close>: the return code of \<^verbatim>\<open>drmGetMagic\<close> and the value
  left in \<^verbatim>\<open>magic\<close>. \<open>getversion_res\<close>: the record of \<^verbatim>\<open>drmGetVersion\<close>, \<open>None\<close> for null.
\<close>

record env =
  calloc_ok :: bool
  get_global_1 :: "32 word"
  get_global_2 :: "32 word"
  dlopen_res :: "nat option"
  dlsym_res :: "nat option"
  bind_res :: "nat option"
  events_1 :: "wl_drm_event list"
  events_2 :: "wl_drm_event list"
  stat_res :: "string \<Rightarrow> 32 word option"
  open_res :: "string \<Rightarrow> nat option"
  getmagic_res :: "int \<Rightarrow> int \<times> 32 word"
  getversion_res :: "int \<Rightarrow> drmVersion option"
  strdup_ok :: "string \<Rightarrow> bool"

definition log_call :: "call \<Rightarrow> display_context \<Rightarrow> display_context" where
  "log_call c s = s\<lparr>calls := calls s @ [c]\<rparr>"

subsection \<open>Constants and library functions\<close>

text \<open>Modelled from the spec: the enumeration of va_drmcommon.h is not among the sources; the
  spec gives \<open>authType\<close> the values None (0) and Custom. The number is the header's; no
  statement below depends on it.\<close>

definition VA_DRM_AUTH_CUSTOM :: int where
  "VA_DRM_AUTH_CUSTOM = 3"

text \<open>\<^verbatim>\<open>S_ISCHR\<close> of sys/stat.h: \<^verbatim>\<open>(m & S_IFMT) == S_IFCHR\<close>.\<close>

definition S_ISCHR :: "32 word \<Rightarrow> bool" where
  "S_ISCHR m \<longleftrightarrow> m AND 0xF000 = 0x2000"

text \<open>\<^verbatim>\<open>open\<close> returns the new descriptor, or -1.\<close>

definition open_c :: "env \<Rightarrow> string \<Rightarrow> int" where
  "open_c e path = (case open_res e path of None \<Rightarrow> - 1 | Some n \<Rightarrow> int n)"

text \<open>The byte of a string at its head; the end of the list is the terminating NUL.\<close>

definition byte_at_head :: "string \<Rightarrow> nat" where
  "byte_at_head s = (case s of [] \<Rightarrow> 0 | c # _ \<Rightarrow> of_char c)"

text \<open>\<^verbatim>\<open>strncmp\<close> of the C library: compares at most \<open>n\<close> bytes as unsigned characters and
  stops after a NUL.\<close>

fun strncmp :: "string \<Rightarrow> string \<Rightarrow> nat \<Rightarrow> int" where
  "strncmp s1 s2 0 = 0"
| "strncmp s1 s2 (Suc n) =
     (if byte_at_head s1 \<noteq> byte_at_head s2 then int (byte_at_head s1) - int (byte_at_head s2)
      else if byte_at_head s1 = 0 then 0
      else strncmp (tl s1) (tl s2) n)"

text \<open>The conversion of an \<^verbatim>\<open>int\<close> argument to \<^verbatim>\<open>size_t\<close> (64 bits).\<close>

definition size_t_of_int :: "int \<Rightarrow> nat" where
  "size_t_of_int k = nat (k mod 2 ^ 64)"

subsection \<open>The driver name table and the resolver\<close>

definition g_driver_name_map :: "driver_name_map list" where
  "g_driver_name_map =
     [\<lparr>key = Some ''i915'', key_len = 4, name = Some ''i965''\<rparr>,
      \<lparr>key = Some ''pvrsrvkm'', key_len = 8, name = Some ''pvr''\<rparr>,
      \<lparr>key = Some ''emgd'', key_len = 4, name = Some ''emgd''\<rparr>,
      \<lparr>key = None, key_len = 0, name = None\<rparr>]"

text \<open>The \<^verbatim>\<open>for\<close> loop of the resolver: the entry \<^verbatim>\<open>m\<close> points to when the loop is left, by
  \<^verbatim>\<open>break\<close> or at the entry with the null key. A table without such an entry would be read
  past its end (\<open>None\<close>).\<close>

fun scan_map :: "drmVersion \<Rightarrow> driver_name_map list \<Rightarrow> driver_name_map option" where
  "scan_map v [] = None"
| "scan_map v (m # ms) =
     (case key m of
        None \<Rightarrow> Some m
      | Some k \<Rightarrow>
          if name_len v \<ge> key_len m \<and> strncmp (vname v) k (size_t_of_int (key_len m)) = 0
          then Some m
          else scan_map v ms)"

text \<open>The resolver over a table: status, the string stored through \<^verbatim>\<open>driver_name_ptr\<close>
  (\<open>None\<close>: null) and the context.\<close>

definition resolve_with ::
  "driver_name_map list \<Rightarrow> env \<Rightarrow> display_context \<Rightarrow> ((VAStatus \<times> string option) \<times> display_context) option" where
  "resolve_with tbl e s =
     (case drm_state s of
        None \<Rightarrow> None
      | Some ds \<Rightarrow>
          (case getversion_res e (fd ds) of
             None \<Rightarrow>
               Some ((VA_STATUS_ERROR_UNKNOWN, None), log_call (Call_drmGetVersion (fd ds) None) s)
           | Some v \<Rightarrow>
               (case scan_map v tbl of
                  None \<Rightarrow> None
                | Some m \<Rightarrow>
                    let s1 = log_call (Call_drmFreeVersion v)
                               (log_call (Call_drmGetVersion (fd ds) (Some v)) s)
                    in (case name m of
                          None \<Rightarrow> Some ((VA_STATUS_ERROR_UNKNOWN, None), s1)
                        | Some n \<Rightarrow>
                            if \<not> strdup_ok e n
                            then Some ((VA_STATUS_ERROR_ALLOCATION_FAILED, None),
                                       log_call (Call_strdup n False) s1)
                            else Some ((VA_STATUS_SUCCESS, Some n),
                                       log_call (Call_strdup n True) s1)))))"

definition va_DisplayContextGetDriverName ::
  "env \<Rightarrow> display_context \<Rightarrow> ((VAStatus \<times> string option) \<times> display_context) option" where
  "va_DisplayContextGetDriverName = resolve_with g_driver_name_map"

subsection \<open>The listener\<close>

definition drm_handle_device :: "env \<Rightarrow> string \<Rightarrow> display_context \<Rightarrow> display_context option" where
  "drm_handle_device e device s =
     (case stat_res e device of
        None \<Rightarrow> Some (log_call (Call_stat device None) s)
      | Some m \<Rightarrow>
          let s1 = log_call (Call_stat device (Some m)) s in
          if \<not> S_ISCHR m then Some s1
          else
            (case drm_state s1 of
               None \<Rightarrow> None
             | Some ds \<Rightarrow>
                 let r = open_c e device;
                     s2 = (log_call (Call_open device r) s1)\<lparr>drm_state := Some (ds\<lparr>fd := r\<rparr>)\<rparr>
                 in if r < 0 then Some s2
                    else Some (log_call (Call_wl_drm_authenticate (drm s2) (snd (getmagic_res e r)))
                                 (log_call (Call_drmGetMagic r (fst (getmagic_res e r))) s2))))"

definition drm_handle_format :: "32 word \<Rightarrow> display_context \<Rightarrow> display_context option" where
  "drm_handle_format format s = Some s"

definition drm_handle_authenticated :: "display_context \<Rightarrow> display_context option" where
  "drm_handle_authenticated s =
     (let s1 = s\<lparr>is_authenticated := True\<rparr> in
      case drm_state s1 of
        None \<Rightarrow> None
      | Some ds \<Rightarrow> Some (s1\<lparr>drm_state := Some (ds\<lparr>auth_type := VA_DRM_AUTH_CUSTOM\<rparr>)\<rparr>))"

text \<open>\<^verbatim>\<open>drm_listener\<close>: the callback of each event, as the Wayland library calls it.\<close>

fun drm_listener :: "env \<Rightarrow> wl_drm_event \<Rightarrow> display_context \<Rightarrow> display_context option" where
  "drm_listener e (Ev_device device) s = drm_handle_device e device (log_call (Delivered (Ev_device device)) s)"
| "drm_listener e (Ev_format format) s = drm_handle_format format (log_call (Delivered (Ev_format format)) s)"
| "drm_listener e Ev_authenticated s = drm_handle_authenticated (log_call (Delivered Ev_authenticated) s)"

fun dispatch :: "env \<Rightarrow> wl_drm_event list \<Rightarrow> display_context \<Rightarrow> display_context option" where
  "dispatch e [] s = Some s"
| "dispatch e (ev # evs) s =
     (case drm_listener e ev s of None \<Rightarrow> None | Some s' \<Rightarrow> dispatch e evs s')"

text \<open>\<^verbatim>\<open>wl_display_roundtrip\<close> with the listener registered: the events the compositor has
  sent are delivered in order. Its return value is not used by the file. The round-trip of
  line 200 runs before the proxy exists, so it delivers no \<^verbatim>\<open>wl_drm\<close> event and only enters the
  log.\<close>

definition wl_display_roundtrip :: "env \<Rightarrow> wl_drm_event list \<Rightarrow> display_context \<Rightarrow> display_context option" where
  "wl_display_roundtrip e evs s = dispatch e evs (log_call Call_wl_display_roundtrip s)"

subsection \<open>Finalizer and initializer\<close>

definition va_wayland_drm_finalize :: "display_context \<Rightarrow> display_context" where
  "va_wayland_drm_finalize s =
     (let s1 = (case drm s of
                  None \<Rightarrow> s
                | Some p \<Rightarrow> (log_call (Call_wl_drm_destroy p) s)\<lparr>drm := None\<rparr>);
          s2 = s1\<lparr>is_authenticated := False\<rparr>;
          s3 = (case libEGL_handle s2 of
                  None \<Rightarrow> s2
                | Some h \<Rightarrow> (log_call (Call_dlclose h) s2)\<lparr>libEGL_handle := None\<rparr>)
      in case drm_state s3 of
           None \<Rightarrow> s3
         | Some ds \<Rightarrow>
             if fd ds \<ge> 0
             then (log_call (Call_free (ds\<lparr>fd := - 1\<rparr>)) (log_call (Call_close (fd ds)) s3))
                    \<lparr>drm_state := None\<rparr>
             else (log_call (Call_free ds) s3)\<lparr>drm_state := None\<rparr>)"

text \<open>The part of the initializer after the proxy is bound (lines 220 to 228): the listener is
  registered and the two round-trips run. The local pointer \<^verbatim>\<open>drm_state\<close> read at line 222 is
  \<^verbatim>\<open>ctx->drm_state\<close>, which no callback reassigns.\<close>

definition init_listen :: "env \<Rightarrow> nat \<Rightarrow> display_context \<Rightarrow> (bool \<times> display_context) option" where
  "init_listen e p s =
     (case wl_display_roundtrip e (events_1 e) (log_call (Call_wl_drm_add_listener p) s) of
        None \<Rightarrow> None
      | Some s1 \<Rightarrow>
          (case drm_state s1 of
             None \<Rightarrow> None
           | Some ds \<Rightarrow>
               if fd ds < 0 then Some (False, s1)
               else
                 (case wl_display_roundtrip e (events_2 e) s1 of
                    None \<Rightarrow> None
                  | Some s2 \<Rightarrow>
                      if \<not> is_authenticated s2 then Some (False, s2) else Some (True, s2))))"

text \<open>The part from the library load to the bind (lines 206 to 218), continued by
  \<open>init_listen\<close>; \<open>gid\<close> is the identifier \<^verbatim>\<open>id\<close> of the global.\<close>

definition init_bind :: "env \<Rightarrow> 32 word \<Rightarrow> display_context \<Rightarrow> (bool \<times> display_context) option" where
  "init_bind e gid s =
     (let s1 = (log_call (Call_dlopen (dlopen_res e)) s)\<lparr>libEGL_handle := dlopen_res e\<rparr> in
      case libEGL_handle s1 of
        None \<Rightarrow> Some (False, s1)
      | Some h \<Rightarrow>
          let s2 = (log_call (Call_dlsym h (dlsym_res e)) s1)\<lparr>drm_interface := dlsym_res e\<rparr> in
          (case drm_interface s2 of
             None \<Rightarrow> Some (False, s2)
           | Some i \<Rightarrow>
               let s3 = (log_call (Call_wl_display_bind gid i (bind_res e)) s2)\<lparr>drm := bind_res e\<rparr> in
               (case drm s3 of
                  None \<Rightarrow> Some (False, s3)
                | Some p \<Rightarrow> init_listen e p s3)))"

definition va_wayland_drm_init :: "env \<Rightarrow> display_context \<Rightarrow> (bool \<times> display_context) option" where
  "va_wayland_drm_init e s =
     (let s0 = s\<lparr>drm := None, is_authenticated := False,
                 finalize := Some Fn_va_wayland_drm_finalize,
                 vaGetDriverName := Some Fn_va_DisplayContextGetDriverName\<rparr>
      in if \<not> calloc_ok e then Some (False, log_call (Call_calloc False) s0)
         else
           let s1 = (log_call (Call_calloc True) s0)\<lparr>drm_state := Some \<lparr>fd = - 1, auth_type = 0\<rparr>\<rparr>;
               s2 = log_call (Call_wl_display_get_global (get_global_1 e)) s1
           in if get_global_1 e = 0
              then
                let s3 = log_call (Call_wl_display_get_global (get_global_2 e))
                           (log_call Call_wl_display_roundtrip s2)
                in if get_global_2 e = 0 then Some (False, s3)
                   else init_bind e (get_global_2 e) s3
              else init_bind e (get_global_1 e) s2)"

subsection \<open>The resolution policy in the words of the specification\<close>

text \<open>An entry of a table that the resolver can use: a key without NUL byte whose recorded
  length is its length.\<close>

definition well_formed_entry :: "driver_name_map \<Rightarrow> bool" where
  "well_formed_entry m =
     (case key m of
        None \<Rightarrow> False
      | Some k \<Rightarrow> CHR 0x00 \<notin> set k \<and> key_len m = int (length k) \<and> length k < 2 ^ 64)"

text \<open>The reported name is at least as long as the entry's prefix, and its first bytes, as
  many as the prefix has, are the prefix.\<close>

definition prefix_matches :: "string \<Rightarrow> driver_name_map \<Rightarrow> bool" where
  "prefix_matches nm m =
     (case key m of
        None \<Rightarrow> False
      | Some k \<Rightarrow> length k \<le> length nm \<and> take (length k) nm = k)"

text \<open>The table is scanned from the top and the first matching entry gives the name.\<close>

definition spec_resolveDriverName :: "driver_name_map list \<Rightarrow> string \<Rightarrow> string option" where
  "spec_resolveDriverName tbl nm =
     (case find (prefix_matches nm) tbl of None \<Rightarrow> None | Some m \<Rightarrow> name m)"

text \<open>What the caller sees: the mapped name with the success status, or the unknown-error
  status and a null string.\<close>

definition spec_result :: "string option \<Rightarrow> VAStatus \<times> string option" where
  "spec_result r =
     (case r of
        None \<Rightarrow> (VA_STATUS_ERROR_UNKNOWN, None)
      | Some n \<Rightarrow> (VA_STATUS_SUCCESS, Some n))"

text \<open>The outcome of the table scan on the shipped table: the name of the entry the loop
  stops at, null when that is the closing entry.\<close>

definition table_match :: "drmVersion \<Rightarrow> string option" where
  "table_match v = (case scan_map v g_driver_name_map of None \<Rightarrow> None | Some m \<Rightarrow> name m)"

text \<open>The calls a function has appended to the log of its context.\<close>

definition new_calls :: "display_context \<Rightarrow> display_context \<Rightarrow> call list" where
  "new_calls s s' = drop (length (calls s)) (calls s')"

subsection \<open>Quantities of the environment used in the statements\<close>

text \<open>The descriptor field after the listener has handled a list of events, from its value
  before: only the advertisement of a path that \<^verbatim>\<open>stat\<close> identifies as a character device
  assigns it, with the result of \<^verbatim>\<open>open\<close>.\<close>

fun fd_after :: "env \<Rightarrow> wl_drm_event list \<Rightarrow> int \<Rightarrow> int" where
  "fd_after e [] f = f"
| "fd_after e (Ev_device p # evs) f =
     fd_after e evs (case stat_res e p of
                       None \<Rightarrow> f
                     | Some m \<Rightarrow> if S_ISCHR m then open_c e p else f)"
| "fd_after e (ev # evs) f = fd_after e evs f"

text \<open>A path that does not exist, is not a character device, or cannot be opened.\<close>

definition device_unusable :: "env \<Rightarrow> string \<Rightarrow> bool" where
  "device_unusable e p =
     (case stat_res e p of
        None \<Rightarrow> True
      | Some m \<Rightarrow> \<not> S_ISCHR m \<or> open_res e p = None)"

text \<open>The log entries that the listener and its callbacks write.\<close>

fun callback_call :: "call \<Rightarrow> bool" where
  "callback_call (Delivered ev) = True"
| "callback_call (Call_stat p r) = True"
| "callback_call (Call_open p r) = True"
| "callback_call (Call_drmGetMagic f r) = True"
| "callback_call (Call_wl_drm_authenticate p m) = True"
| "callback_call c = False"

text \<open>The conditions under which the initializer reports success, read off the environment.\<close>

definition init_succeeds :: "env \<Rightarrow> bool" where
  "init_succeeds e \<longleftrightarrow>
     calloc_ok e \<and> (get_global_1 e \<noteq> 0 \<or> get_global_2 e \<noteq> 0)
     \<and> dlopen_res e \<noteq> None \<and> dlsym_res e \<noteq> None \<and> bind_res e \<noteq> None
     \<and> 0 \<le> fd_after e (events_1 e) (- 1)
     \<and> Ev_authenticated \<in> set (events_1 e @ events_2 e)"

text \<open>The calls of one run of the initializer.\<close>

definition init_calls :: "env \<Rightarrow> display_context \<Rightarrow> call list" where
  "init_calls e s = (case va_wayland_drm_init e s of None \<Rightarrow> [] | Some r \<Rightarrow> new_calls s (snd r))"

text \<open>The context after the allocation block of the initializer (line 196), and after the
  registry has been queried, once or twice (line 204).\<close>

definition allocated :: "display_context \<Rightarrow> display_context" where
  "allocated s =
     (log_call (Call_calloc True)
        (s\<lparr>drm := None, is_authenticated := False,
            finalize := Some Fn_va_wayland_drm_finalize,
            vaGetDriverName := Some Fn_va_DisplayContextGetDriverName\<rparr>))
     \<lparr>drm_state := Some \<lparr>fd = - 1, auth_type = 0\<rparr>\<rparr>"

definition queried :: "env \<Rightarrow> display_context \<Rightarrow> display_context" where
  "queried e s =
     (if get_global_1 e \<noteq> 0
      then log_call (Call_wl_display_get_global (get_global_1 e)) (allocated s)
      else log_call (Call_wl_display_get_global (get_global_2 e))
             (log_call Call_wl_display_roundtrip
               (log_call (Call_wl_display_get_global (get_global_1 e)) (allocated s))))"

text \<open>Kinds of calls, and the order of two kinds in a log: every call of the first kind
  comes before every call of the second.\<close>

fun is_get_global :: "call \<Rightarrow> bool" where
  "is_get_global (Call_wl_display_get_global g) = True"
| "is_get_global c = False"

fun is_dlopen :: "call \<Rightarrow> bool" where
  "is_dlopen (Call_dlopen h) = True"
| "is_dlopen c = False"

fun is_dlsym :: "call \<Rightarrow> bool" where
  "is_dlsym (Call_dlsym h i) = True"
| "is_dlsym c = False"

fun all_before :: "(call \<Rightarrow> bool) \<Rightarrow> (call \<Rightarrow> bool) \<Rightarrow> call list \<Rightarrow> bool" where
  "all_before P Q [] = True"
| "all_before P Q (c # cs) = ((Q c \<longrightarrow> \<not> P c \<and> \<not> list_ex P cs) \<and> all_before P Q cs)"

text \<open>The log entries written from the registration of the listener on.\<close>

fun listen_call :: "call \<Rightarrow> bool" where
  "listen_call (Call_wl_drm_add_listener p) = True"
| "listen_call Call_wl_display_roundtrip = True"
| "listen_call c = callback_call c"

text \<open>The calls of the registry query (lines 198 to 204) and of the steps from the library
  load to the bind (lines 206 to 218), as the environment answers them.\<close>

definition registry_calls :: "env \<Rightarrow> call list" where
  "registry_calls e =
     Call_wl_display_get_global (get_global_1 e)
     # (if get_global_1 e = 0
        then [Call_wl_display_roundtrip, Call_wl_display_get_global (get_global_2 e)]
        else [])"

definition loader_calls :: "env \<Rightarrow> 32 word \<Rightarrow> call list" where
  "loader_calls e gid =
     Call_dlopen (dlopen_res e)
     # (case dlopen_res e of
          None \<Rightarrow> []
        | Some h \<Rightarrow>
            Call_dlsym h (dlsym_res e)
            # (case dlsym_res e of
                 None \<Rightarrow> []
               | Some i \<Rightarrow> [Call_wl_display_bind gid i (bind_res e)]))"

text \<open>The invariant of the DRM state, read on the log: a descriptor that is not negative was
  returned by a successful \<^verbatim>\<open>open\<close>, and an authentication type other than 0 was set after the
  authentication-confirmed event had been delivered.\<close>

fun opened_as :: "int \<Rightarrow> call \<Rightarrow> bool" where
  "opened_as f (Call_open p r) = (r = f \<and> 0 \<le> r)"
| "opened_as f c = False"

definition drm_state_inv :: "display_context \<Rightarrow> bool" where
  "drm_state_inv s =
     (case drm_state s of
        None \<Rightarrow> True
      | Some ds \<Rightarrow>
          (0 \<le> fd ds \<longrightarrow> list_ex (opened_as (fd ds)) (calls s))
          \<and> (auth_type ds \<noteq> 0 \<longrightarrow> Delivered Ev_authenticated \<in> set (calls s)))"

text \<open>The contexts that occur while the initializer runs, from the allocation of the state
  on: one rule for each statement of the initializer that follows the allocation, with any
  answer of the foreign function, and one for a callback of the listener.\<close>

inductive reachable :: "env \<Rightarrow> display_context \<Rightarrow> display_context \<Rightarrow> bool" for e s where
  alloc: "calloc_ok e \<Longrightarrow> reachable e s (allocated s)"
| query: "reachable e s t \<Longrightarrow> reachable e s (log_call (Call_wl_display_get_global g) t)"
| roundtrip: "reachable e s t \<Longrightarrow> reachable e s (log_call Call_wl_display_roundtrip t)"
| load: "reachable e s t \<Longrightarrow> reachable e s ((log_call (Call_dlopen h) t)\<lparr>libEGL_handle := h\<rparr>)"
| lookup: "reachable e s t \<Longrightarrow> reachable e s ((log_call (Call_dlsym h' i) t)\<lparr>drm_interface := i\<rparr>)"
| bind: "reachable e s t \<Longrightarrow> reachable e s ((log_call (Call_wl_display_bind g i' p) t)\<lparr>drm := p\<rparr>)"
| listen: "reachable e s t \<Longrightarrow> reachable e s (log_call (Call_wl_drm_add_listener p') t)"
| callback: "reachable e s t \<Longrightarrow> drm_listener e ev t = Some t' \<Longrightarrow> reachable e s t'"

code_pred reachable .

text \<open>Resources and their accounting on the log: what a call acquires, what it releases,
  and the resources held after a log, \<open>None\<close> when a call releases one that is not held.\<close>

datatype resource = R_state | R_library nat | R_proxy nat | R_descriptor int

fun acquires :: "call \<Rightarrow> resource option" where
  "acquires (Call_calloc ok) = (if ok then Some R_state else None)"
| "acquires (Call_dlopen h) = map_option R_library h"
| "acquires (Call_wl_display_bind g i p) = map_option R_proxy p"
| "acquires (Call_open path r) = (if 0 \<le> r then Some (R_descriptor r) else None)"
| "acquires c = None"

fun releases :: "call \<Rightarrow> resource option" where
  "releases (Call_free ds) = Some R_state"
| "releases (Call_dlclose h) = Some (R_library h)"
| "releases (Call_wl_drm_destroy p) = Some (R_proxy p)"
| "releases (Call_close f) = Some (R_descriptor f)"
| "releases c = None"

fun held :: "resource list \<Rightarrow> call list \<Rightarrow> resource list option" where
  "held rs [] = Some rs"
| "held rs (c # cs) =
     (case releases c of
        Some r \<Rightarrow> if r \<in> set rs then held (remove1 r rs) cs else None
      | None \<Rightarrow>
          (case acquires c of
             Some r \<Rightarrow> held (r # rs) cs
           | None \<Rightarrow> held rs cs))"

text \<open>A log in which every release is of a resource held at that point.\<close>

definition safe_log :: "call list \<Rightarrow> bool" where
  "safe_log cs \<longleftrightarrow> held [] cs \<noteq> None"

text \<open>A context in which the initializer finds no library handle and no state, as the
  zero-filled allocation of the caller or an earlier run of the finalizer leaves it, with a
  safe log.\<close>

definition zeroed :: "display_context \<Rightarrow> bool" where
  "zeroed s \<longleftrightarrow> libEGL_handle s = None \<and> drm_state s = None \<and> safe_log (calls s)"

text \<open>Every resource a field of the context refers to is among the resources held.\<close>

definition owns :: "resource list \<Rightarrow> display_context \<Rightarrow> bool" where
  "owns rs t \<longleftrightarrow>
     (case drm t of None \<Rightarrow> True | Some p \<Rightarrow> R_proxy p \<in> set rs)
     \<and> (case libEGL_handle t of None \<Rightarrow> True | Some h \<Rightarrow> R_library h \<in> set rs)
     \<and> (case drm_state t of
          None \<Rightarrow> True
        | Some ds \<Rightarrow> R_state \<in> set rs \<and> (0 \<le> fd ds \<longrightarrow> R_descriptor (fd ds) \<in> set rs))"

text \<open>The releases the finalizer performs on a context: one for each resource present.\<close>

definition release_calls :: "display_context \<Rightarrow> call list" where
  "release_calls s =
     (case drm s of None \<Rightarrow> [] | Some p \<Rightarrow> [Call_wl_drm_destroy p])
     @ (case libEGL_handle s of None \<Rightarrow> [] | Some h \<Rightarrow> [Call_dlclose h])
     @ (case drm_state s of
          None \<Rightarrow> []
        | Some ds \<Rightarrow>
            if 0 \<le> fd ds then [Call_close (fd ds), Call_free (ds\<lparr>fd := - 1\<rparr>)]
            else [Call_free ds])"

definition accounted :: "display_context \<Rightarrow> bool" where
  "accounted t = (case held [] (calls t) of None \<Rightarrow> False | Some rs \<Rightarrow> owns rs t)"

subsection \<open>Contexts and environments used as concrete inputs\<close>

text \<open>A context as \<^verbatim>\<open>calloc\<close> leaves it, before the initializer runs.\<close>

definition ctx_fresh :: display_context where
  "ctx_fresh = \<lparr>drm = None, is_authenticated = False, libEGL_handle = None,
     drm_interface = None, finalize = None, vaGetDriverName = None, drm_state = None,
     calls = []\<rparr>"

text \<open>A context with an open, authenticated descriptor.\<close>

definition ctx_ready :: display_context where
  "ctx_ready = \<lparr>drm = Some 300, is_authenticated = True, libEGL_handle = Some 100,
     drm_interface = Some 200, finalize = Some Fn_va_wayland_drm_finalize,
     vaGetDriverName = Some Fn_va_DisplayContextGetDriverName,
     drm_state = Some \<lparr>fd = 5, auth_type = 3\<rparr>, calls = []\<rparr>"

text \<open>The context the initializer returns in the world \<open>env_good\<close> below.\<close>

definition ctx_done :: display_context where
  "ctx_done = \<lparr>drm = Some 300, is_authenticated = True, libEGL_handle = Some 100,
     drm_interface = Some 200, finalize = Some Fn_va_wayland_drm_finalize,
     vaGetDriverName = Some Fn_va_DisplayContextGetDriverName,
     drm_state = Some \<lparr>fd = 5, auth_type = 3\<rparr>,
     calls = [Call_calloc True, Call_wl_display_get_global 7, Call_dlopen (Some 100),
       Call_dlsym 100 (Some 200), Call_wl_display_bind 7 200 (Some 300),
       Call_wl_drm_add_listener 300, Call_wl_display_roundtrip,
       Delivered (Ev_device ''/dev/dri/card0''), Call_stat ''/dev/dri/card0'' (Some 0x21B0),
       Call_open ''/dev/dri/card0'' 5, Call_drmGetMagic 5 0,
       Call_wl_drm_authenticate (Some 300) 42, Delivered (Ev_format 0x34325258),
       Call_wl_display_roundtrip, Delivered Ev_authenticated]\<rparr>"

text \<open>A world in which every step succeeds: the compositor advertises \<^verbatim>\<open>/dev/dri/card0\<close>, a
  character device (mode 020660), which opens as descriptor 5, and confirms the
  authentication in the second round-trip; the kernel driver is \<^verbatim>\<open>i915\<close>.\<close>

definition env_good :: env where
  "env_good = \<lparr>calloc_ok = True, get_global_1 = 7, get_global_2 = 7,
     dlopen_res = Some 100, dlsym_res = Some 200, bind_res = Some 300,
     events_1 = [Ev_device ''/dev/dri/card0'', Ev_format 0x34325258],
     events_2 = [Ev_authenticated],
     stat_res = (\<lambda>p. if p = ''/dev/dri/card0'' then Some 0x21B0 else None),
     open_res = (\<lambda>p. if p = ''/dev/dri/card0'' then Some 5 else None),
     getmagic_res = (\<lambda>f. (0, 42)),
     getversion_res = (\<lambda>f. if f = 5 then Some \<lparr>name_len = 4, vname = ''i915''\<rparr> else None),
     strdup_ok = (\<lambda>n. True)\<rparr>"

text \<open>The same world without memory for the copy of the name.\<close>

definition env_no_memory :: env where
  "env_no_memory = env_good\<lparr>strdup_ok := (\<lambda>n. False)\<rparr>"

text \<open>Variations of that world, one step changed in each: the global appears only after
  the round-trip; \<^verbatim>\<open>drmGetMagic\<close> fails with -13 and leaves 0 in \<^verbatim>\<open>magic\<close>; the advertised
  path does not exist, is a regular file (mode 0100644), or cannot be opened; the compositor
  does not confirm; the allocation fails; the global is absent; the library, the symbol or
  the proxy is missing.\<close>

definition env_retry :: env where
  "env_retry = env_good\<lparr>get_global_1 := 0\<rparr>"

definition env_magic_fails :: env where
  "env_magic_fails = env_good\<lparr>getmagic_res := (\<lambda>f. (- 13, 0))\<rparr>"

definition env_no_device :: env where
  "env_no_device = env_good\<lparr>stat_res := (\<lambda>p. None)\<rparr>"

definition env_regular_file :: env where
  "env_regular_file = env_good\<lparr>stat_res := (\<lambda>p. Some 0x81A4)\<rparr>"

definition env_open_fails :: env where
  "env_open_fails = env_good\<lparr>open_res := (\<lambda>p. None)\<rparr>"

definition env_unconfirmed :: env where
  "env_unconfirmed = env_good\<lparr>events_2 := []\<rparr>"

definition env_no_state :: env where
  "env_no_state = env_good\<lparr>calloc_ok := False\<rparr>"

definition env_no_global :: env where
  "env_no_global = env_good\<lparr>get_global_1 := 0, get_global_2 := 0\<rparr>"

definition env_no_library :: env where
  "env_no_library = env_good\<lparr>dlopen_res := None\<rparr>"

definition env_no_symbol :: env where
  "env_no_symbol = env_good\<lparr>dlsym_res := None\<rparr>"

definition env_no_proxy :: env where
  "env_no_proxy = env_good\<lparr>bind_res := None\<rparr>"

text \<open>A table with overlapping prefixes, to observe the order of the scan.\<close>

definition overlapping_map :: "driver_name_map list" where
  "overlapping_map =
     [\<lparr>key = Some ''i9'', key_len = 2, name = Some ''first''\<rparr>,
      \<lparr>key = Some ''i915'', key_len = 4, name = Some ''second''\<rparr>]"

definition null_entry :: driver_name_map where
  "null_entry = \<lparr>key = None, key_len = 0, name = None\<rparr>"

section \<open>The driver name mapper\<close>

lemma strncmp_zero_iff:
  "CHR 0x00 \<notin> set k \<Longrightarrow> (strncmp s k (length k) = 0) = (take (length k) s = k)"
proof (induction k arbitrary: s)
  case Nil
  then show ?case by simp
next
  case (Cons c k)
  have c0: "(of_char c :: nat) \<noteq> 0" using Cons.prems by (cases c) auto
  show ?case
  proof (cases s)
    case Nil
    then show ?thesis using c0 by (simp add: byte_at_head_def)
  next
    case (Cons d s')
    then show ?thesis using c0 Cons.IH[of s'] Cons.prems
      by (auto simp add: byte_at_head_def)
  qed
qed

text \<open>On a well-formed entry the test of the loop is the match of the specification, for a
  version record whose reported length is not below the length of its name.\<close>

lemma entry_test:
  assumes wf: "well_formed_entry m" and len: "int (length (vname v)) \<le> name_len v"
    and k: "key m = Some k"
  shows "(name_len v \<ge> key_len m \<and> strncmp (vname v) k (size_t_of_int (key_len m)) = 0)
         = prefix_matches (vname v) m"
proof -
  from wf k have nul: "CHR 0x00 \<notin> set k" and kl: "key_len m = int (length k)"
    and small: "length k < 2 ^ 64"
    by (simp_all add: well_formed_entry_def)
  have sz: "size_t_of_int (int (length k)) = length k"
    using small by (simp add: size_t_of_int_def)
  have "length k \<le> length (vname v)" if "take (length k) (vname v) = k"
  proof -
    from that have "length (take (length k) (vname v)) = length k" by simp
    then show ?thesis by simp
  qed
  then show ?thesis
    using len by (auto simp add: kl sz strncmp_zero_iff[OF nul] prefix_matches_def k)
qed

lemma scan_map_find:
  assumes "\<forall>m \<in> set tbl. well_formed_entry m" and "int (length (vname v)) \<le> name_len v"
    and "key z = None"
  shows "scan_map v (tbl @ z # rest) =
         Some (case find (prefix_matches (vname v)) tbl of None \<Rightarrow> z | Some m \<Rightarrow> m)"
  using assms
proof (induction tbl)
  case Nil
  then show ?case by simp
next
  case (Cons m tbl)
  from Cons.prems obtain k where k: "key m = Some k"
    by (auto simp add: well_formed_entry_def split: option.splits)
  have "well_formed_entry m" using Cons.prems by simp
  from entry_test[OF this Cons.prems(2) k] show ?case
    using Cons k by simp
qed

lemma resolve_with_spec:
  assumes tbl: "\<forall>m \<in> set tbl. well_formed_entry m" and z: "key z = None" "name z = None"
    and ds: "drm_state s = Some ds" and v: "getversion_res e (fd ds) = Some v"
    and len: "int (length (vname v)) \<le> name_len v" and dup: "\<forall>n. strdup_ok e n"
  shows "map_option fst (resolve_with (tbl @ [z]) e s)
         = Some (spec_result (spec_resolveDriverName tbl (vname v)))"
  using ds v dup z
  by (simp add: resolve_with_def scan_map_find[OF tbl len z(1)] spec_result_def
      spec_resolveDriverName_def Let_def split: option.splits)

lemma shipped_wf: "\<forall>m \<in> set (butlast g_driver_name_map). well_formed_entry m"
  by (simp add: g_driver_name_map_def well_formed_entry_def)

lemma shipped_split: "g_driver_name_map = butlast g_driver_name_map @ [null_entry]"
  by (simp add: g_driver_name_map_def null_entry_def)

lemma spec_i915:
  "prefix ''i915'' nm \<Longrightarrow> spec_resolveDriverName (butlast g_driver_name_map) nm = Some ''i965''"
  by (auto simp add: prefix_def spec_resolveDriverName_def g_driver_name_map_def
      prefix_matches_def)

lemma spec_pvrsrvkm:
  "prefix ''pvrsrvkm'' nm \<Longrightarrow> spec_resolveDriverName (butlast g_driver_name_map) nm = Some ''pvr''"
  by (auto simp add: prefix_def spec_resolveDriverName_def g_driver_name_map_def
      prefix_matches_def)

lemma spec_emgd:
  "prefix ''emgd'' nm \<Longrightarrow> spec_resolveDriverName (butlast g_driver_name_map) nm = Some ''emgd''"
  by (auto simp add: prefix_def spec_resolveDriverName_def g_driver_name_map_def
      prefix_matches_def)

lemma spec_nouveau:
  "prefix ''nouveau'' nm \<Longrightarrow> spec_resolveDriverName (butlast g_driver_name_map) nm = None"
  by (auto simp add: prefix_def spec_resolveDriverName_def g_driver_name_map_def
      prefix_matches_def)

text \<open>
  Claim C1. When the version query succeeds (with a record whose reported length is not
  below the length of its name, as libdrm builds it) and the string can be duplicated, the
  resolver stores the mapped name and returns the success status exactly when the first
  table entry, from the top, whose prefix the reported name is at least as long as and
  starts with, maps to that name; when no entry matches it returns the unknown-error status.
  A name starting with \<^verbatim>\<open>i915\<close> gives \<^verbatim>\<open>i965\<close>, with \<^verbatim>\<open>pvrsrvkm\<close> gives \<^verbatim>\<open>pvr\<close>, with \<^verbatim>\<open>emgd\<close>
  gives \<^verbatim>\<open>emgd\<close>, and \<^verbatim>\<open>nouveau\<close> gives the unknown-error status. The same code over any
  well-formed table ended by a null entry takes the first match, so the order of the table
  decides between overlapping prefixes.
\<close>

theorem resolve_driver_name_first_match:
  assumes ds: "drm_state s = Some ds" and v: "getversion_res e (fd ds) = Some v"
    and len: "int (length (vname v)) \<le> name_len v" and dup: "\<forall>n. strdup_ok e n"
  shows "((map_option fst (va_DisplayContextGetDriverName e s) = Some (VA_STATUS_SUCCESS, Some n))
            = (spec_resolveDriverName (butlast g_driver_name_map) (vname v) = Some n))
       \<and> ((map_option fst (va_DisplayContextGetDriverName e s) = Some (VA_STATUS_ERROR_UNKNOWN, None))
            = (spec_resolveDriverName (butlast g_driver_name_map) (vname v) = None))
       \<and> (prefix ''i915'' (vname v) \<longrightarrow>
            map_option fst (va_DisplayContextGetDriverName e s) = Some (VA_STATUS_SUCCESS, Some ''i965''))
       \<and> (prefix ''pvrsrvkm'' (vname v) \<longrightarrow>
            map_option fst (va_DisplayContextGetDriverName e s) = Some (VA_STATUS_SUCCESS, Some ''pvr''))
       \<and> (prefix ''emgd'' (vname v) \<longrightarrow>
            map_option fst (va_DisplayContextGetDriverName e s) = Some (VA_STATUS_SUCCESS, Some ''emgd''))
       \<and> (prefix ''nouveau'' (vname v) \<longrightarrow>
            map_option fst (va_DisplayContextGetDriverName e s) = Some (VA_STATUS_ERROR_UNKNOWN, None))
       \<and> ((\<forall>m \<in> set tbl. well_formed_entry m) \<longrightarrow>
            map_option fst (resolve_with (tbl @ [null_entry]) e s)
              = Some (spec_result (spec_resolveDriverName tbl (vname v))))"
proof -
  let ?r = "spec_resolveDriverName (butlast g_driver_name_map) (vname v)"
  have nz: "key null_entry = None" "name null_entry = None"
    by (simp_all add: null_entry_def)
  have shipped: "map_option fst (va_DisplayContextGetDriverName e s) = Some (spec_result ?r)"
    unfolding va_DisplayContextGetDriverName_def
    using resolve_with_spec[OF shipped_wf nz ds v len dup] shipped_split by simp
  have a: "(map_option fst (va_DisplayContextGetDriverName e s) = Some (VA_STATUS_SUCCESS, Some n))
            = (?r = Some n)"
    by (cases ?r) (simp_all add: shipped spec_result_def)
  have b: "(map_option fst (va_DisplayContextGetDriverName e s) = Some (VA_STATUS_ERROR_UNKNOWN, None))
            = (?r = None)"
    by (cases ?r) (simp_all add: shipped spec_result_def)
  have c: "map_option fst (resolve_with (tbl @ [null_entry]) e s)
              = Some (spec_result (spec_resolveDriverName tbl (vname v)))"
    if "\<forall>m \<in> set tbl. well_formed_entry m"
    by (rule resolve_with_spec[OF that nz ds v len dup])
  show ?thesis
    using a b c by (simp add: shipped spec_result_def spec_i915 spec_pvrsrvkm spec_emgd spec_nouveau)
qed

theorem resolve_driver_name_first_match_witness:
  "drm_state ctx_ready = Some \<lparr>fd = 5, auth_type = 3\<rparr>
   \<and> getversion_res env_good 5 = Some \<lparr>name_len = 4, vname = ''i915''\<rparr>
   \<and> prefix ''i915'' ''i915''
   \<and> map_option fst (va_DisplayContextGetDriverName env_good ctx_ready)
       = Some (VA_STATUS_SUCCESS, Some ''i965'')
   \<and> list_all well_formed_entry overlapping_map
   \<and> map_option fst (resolve_with (overlapping_map @ [null_entry]) env_good ctx_ready)
       = Some (VA_STATUS_SUCCESS, Some ''first'')"
proof -
  have ds: "drm_state ctx_ready = Some \<lparr>fd = 5, auth_type = 3\<rparr>"
    by (simp add: ctx_ready_def)
  have v: "getversion_res env_good (fd \<lparr>fd = 5, auth_type = 3\<rparr>)
             = Some \<lparr>name_len = 4, vname = ''i915''\<rparr>"
    by (simp add: env_good_def)
  have len: "int (length (vname \<lparr>name_len = 4, vname = ''i915''\<rparr>))
               \<le> name_len \<lparr>name_len = 4, vname = ''i915''\<rparr>"
    by simp
  have dup: "\<forall>n. strdup_ok env_good n"
    by (simp add: env_good_def)
  have wf: "\<forall>m \<in> set overlapping_map. well_formed_entry m"
    by (simp add: overlapping_map_def well_formed_entry_def)
  have sp: "spec_resolveDriverName overlapping_map ''i915'' = Some ''first''"
    by (simp add: spec_resolveDriverName_def overlapping_map_def prefix_matches_def)
  have sp': "spec_resolveDriverName (butlast g_driver_name_map) ''i915'' = Some ''i965''"
    by (simp add: spec_i915)
  show ?thesis
    using resolve_driver_name_first_match[OF ds v len dup, of "''i965''" overlapping_map] ds v wf sp sp'
    by (simp add: spec_result_def list_all_iff)
qed

lemma scan_map_shipped: "\<exists>m. scan_map v g_driver_name_map = Some m"
  by (simp add: g_driver_name_map_def)

lemma get_driver_name_cases:
  assumes ds: "drm_state s = Some ds"
  shows "va_DisplayContextGetDriverName e s =
     (case getversion_res e (fd ds) of
        None \<Rightarrow> Some ((VA_STATUS_ERROR_UNKNOWN, None), s\<lparr>calls := calls s @ [Call_drmGetVersion (fd ds) None]\<rparr>)
      | Some v \<Rightarrow>
          (case table_match v of
             None \<Rightarrow> Some ((VA_STATUS_ERROR_UNKNOWN, None),
                          s\<lparr>calls := calls s @ [Call_drmGetVersion (fd ds) (Some v), Call_drmFreeVersion v]\<rparr>)
           | Some n \<Rightarrow>
               if strdup_ok e n
               then Some ((VA_STATUS_SUCCESS, Some n),
                      s\<lparr>calls := calls s @ [Call_drmGetVersion (fd ds) (Some v), Call_drmFreeVersion v, Call_strdup n True]\<rparr>)
               else Some ((VA_STATUS_ERROR_ALLOCATION_FAILED, None),
                      s\<lparr>calls := calls s @ [Call_drmGetVersion (fd ds) (Some v), Call_drmFreeVersion v, Call_strdup n False]\<rparr>)))"
proof (cases "getversion_res e (fd ds)")
  case None
  then show ?thesis using ds
    by (simp add: va_DisplayContextGetDriverName_def resolve_with_def log_call_def)
next
  case (Some v)
  obtain m where m: "scan_map v g_driver_name_map = Some m"
    using scan_map_shipped by blast
  show ?thesis using ds Some m
    by (cases "name m")
      (simp_all add: va_DisplayContextGetDriverName_def resolve_with_def log_call_def
        table_match_def Let_def)
qed

text \<open>
  Claim C8. With a non-null state, the resolver returns. Its status is the allocation-failure
  status exactly when the version query returned a record, the table scan stopped at an entry
  with a name, and the duplication of that name failed; it is the unknown-error status, a
  different code, exactly when the query or the scan failed. Whenever the status is not the
  success status the string stored for the caller is null. After a successful query the
  version record is passed to \<^verbatim>\<open>drmFreeVersion\<close> exactly once on every path, and after a
  failed query \<^verbatim>\<open>drmFreeVersion\<close> is not called.
\<close>

theorem get_driver_name_status_and_release:
  assumes ds: "drm_state s = Some ds"
  shows "\<exists>st out s'. va_DisplayContextGetDriverName e s = Some ((st, out), s')
     \<and> ((st = VA_STATUS_ERROR_ALLOCATION_FAILED)
          = (\<exists>v n. getversion_res e (fd ds) = Some v \<and> table_match v = Some n \<and> \<not> strdup_ok e n))
     \<and> ((st = VA_STATUS_ERROR_UNKNOWN)
          = (getversion_res e (fd ds) = None
             \<or> (\<exists>v. getversion_res e (fd ds) = Some v \<and> table_match v = None)))
     \<and> (st \<noteq> VA_STATUS_SUCCESS \<longrightarrow> out = None)
     \<and> (case getversion_res e (fd ds) of
          None \<Rightarrow> \<forall>v. Call_drmFreeVersion v \<notin> set (new_calls s s')
        | Some v \<Rightarrow> count_list (new_calls s s') (Call_drmFreeVersion v) = 1)"
proof (cases "getversion_res e (fd ds)")
  case None
  then show ?thesis
    by (simp add: get_driver_name_cases[OF ds] new_calls_def)
next
  case (Some v)
  show ?thesis
  proof (cases "table_match v")
    case None
    then show ?thesis using Some
      by (simp add: get_driver_name_cases[OF ds] new_calls_def)
  next
    case (Some n)
    then show ?thesis using \<open>getversion_res e (fd ds) = Some v\<close>
      by (cases "strdup_ok e n") (simp_all add: get_driver_name_cases[OF ds] new_calls_def)
  qed
qed

theorem get_driver_name_status_and_release_witness:
  "drm_state ctx_ready = Some \<lparr>fd = 5, auth_type = 3\<rparr>
   \<and> getversion_res env_no_memory 5 = Some \<lparr>name_len = 4, vname = ''i915''\<rparr>
   \<and> table_match \<lparr>name_len = 4, vname = ''i915''\<rparr> = Some ''i965''
   \<and> \<not> strdup_ok env_no_memory ''i965''
   \<and> (\<exists>s'. va_DisplayContextGetDriverName env_no_memory ctx_ready
              = Some ((VA_STATUS_ERROR_ALLOCATION_FAILED, None), s')
          \<and> count_list (new_calls ctx_ready s')
               (Call_drmFreeVersion \<lparr>name_len = 4, vname = ''i915''\<rparr>) = 1)"
proof -
  have ds: "drm_state ctx_ready = Some \<lparr>fd = 5, auth_type = 3\<rparr>"
    by (simp add: ctx_ready_def)
  have v: "getversion_res env_no_memory 5 = Some \<lparr>name_len = 4, vname = ''i915''\<rparr>"
    by (simp add: env_no_memory_def env_good_def)
  have tm: "table_match \<lparr>name_len = 4, vname = ''i915''\<rparr> = Some ''i965''"
    by (simp add: table_match_def g_driver_name_map_def size_t_of_int_def byte_at_head_def
        eval_nat_numeral)
  have nd: "\<not> strdup_ok env_no_memory ''i965''"
    by (simp add: env_no_memory_def)
  from get_driver_name_status_and_release[OF ds, of env_no_memory]
  obtain st out s' where r: "va_DisplayContextGetDriverName env_no_memory ctx_ready = Some ((st, out), s')"
    and st: "(st = VA_STATUS_ERROR_ALLOCATION_FAILED)
          = (\<exists>v n. getversion_res env_no_memory (fd \<lparr>fd = 5, auth_type = 3\<rparr>) = Some v \<and> table_match v = Some n \<and> \<not> strdup_ok env_no_memory n)"
    and out: "st \<noteq> VA_STATUS_SUCCESS \<longrightarrow> out = None"
    and rel: "(case getversion_res env_no_memory (fd \<lparr>fd = 5, auth_type = 3\<rparr>) of
          None \<Rightarrow> \<forall>v. Call_drmFreeVersion v \<notin> set (new_calls ctx_ready s')
        | Some v \<Rightarrow> count_list (new_calls ctx_ready s') (Call_drmFreeVersion v) = 1)"
    by blast
  from st v tm nd have "st = VA_STATUS_ERROR_ALLOCATION_FAILED" by auto
  moreover from this out have "out = None" by simp
  moreover from rel v have "count_list (new_calls ctx_ready s')
               (Call_drmFreeVersion \<lparr>name_len = 4, vname = ''i915''\<rparr>) = 1" by simp
  ultimately show ?thesis using ds v tm nd r by blast
qed

text \<open>
  Claim C10. With a non-null state, the resolver returns a context that differs from the one
  it was given in the log of foreign calls only, which it extends: the descriptor, the
  authentication type and every other field are as on entry, on the success path and on the
  failure paths alike.
\<close>

theorem get_driver_name_frame:
  assumes ds: "drm_state s = Some ds"
  shows "\<exists>st out s'. va_DisplayContextGetDriverName e s = Some ((st, out), s')
     \<and> s' = s\<lparr>calls := calls s'\<rparr>
     \<and> drm_state s' = Some ds
     \<and> map_option fd (drm_state s') = map_option fd (drm_state s)
     \<and> map_option auth_type (drm_state s') = map_option auth_type (drm_state s)
     \<and> take (length (calls s)) (calls s') = calls s"
  using ds
  by (simp add: get_driver_name_cases[OF ds] split: option.splits)

theorem get_driver_name_frame_witness:
  "drm_state ctx_ready = Some \<lparr>fd = 5, auth_type = 3\<rparr>
   \<and> (\<exists>st out s'. va_DisplayContextGetDriverName env_good ctx_ready = Some ((st, out), s')
         \<and> s' = ctx_ready\<lparr>calls := calls s'\<rparr>
         \<and> drm_state s' = Some \<lparr>fd = 5, auth_type = 3\<rparr>)"
proof -
  have ds: "drm_state ctx_ready = Some \<lparr>fd = 5, auth_type = 3\<rparr>"
    by (simp add: ctx_ready_def)
  from get_driver_name_frame[OF ds, of env_good] ds show ?thesis by blast
qed

section \<open>The authenticator\<close>

subsection \<open>Effects of the listener\<close>

lemma drm_listener_frame:
  assumes "drm_listener e ev s = Some s'"
  shows "drm s' = drm s \<and> libEGL_handle s' = libEGL_handle s
       \<and> drm_interface s' = drm_interface s \<and> finalize s' = finalize s
       \<and> vaGetDriverName s' = vaGetDriverName s"
  using assms
  by (cases ev)
    (auto simp add: drm_handle_device_def drm_handle_format_def drm_handle_authenticated_def
      log_call_def Let_def split: option.splits if_splits)

lemma drm_listener_total:
  assumes "drm_state s = Some ds"
  shows "\<exists>s' ds'. drm_listener e ev s = Some s' \<and> drm_state s' = Some ds'"
  using assms
  by (cases ev)
    (auto simp add: drm_handle_device_def drm_handle_format_def drm_handle_authenticated_def
      log_call_def Let_def split: option.splits if_splits)

lemma drm_listener_auth:
  assumes "drm_listener e ev s = Some s'"
  shows "is_authenticated s' = (is_authenticated s \<or> ev = Ev_authenticated)"
  using assms
  by (cases ev)
    (auto simp add: drm_handle_device_def drm_handle_format_def drm_handle_authenticated_def
      log_call_def Let_def split: option.splits if_splits)

lemma drm_listener_fd:
  assumes "drm_listener e ev s = Some s'" and "drm_state s = Some ds"
  shows "map_option fd (drm_state s') = Some (fd_after e [ev] (fd ds))"
  using assms
  by (cases ev)
    (auto simp add: drm_handle_device_def drm_handle_format_def drm_handle_authenticated_def
      log_call_def Let_def split: option.splits if_splits)

lemma drm_listener_calls:
  assumes "drm_listener e ev s = Some s'"
  shows "\<exists>cs. calls s' = calls s @ cs \<and> list_all callback_call cs"
  using assms
  by (cases ev)
    (auto simp add: drm_handle_device_def drm_handle_format_def drm_handle_authenticated_def
      log_call_def Let_def split: option.splits if_splits)

lemma dispatch_frame:
  "dispatch e evs s = Some s' \<Longrightarrow>
     drm s' = drm s \<and> libEGL_handle s' = libEGL_handle s
       \<and> drm_interface s' = drm_interface s \<and> finalize s' = finalize s
       \<and> vaGetDriverName s' = vaGetDriverName s"
proof (induction evs arbitrary: s)
  case Nil
  then show ?case by simp
next
  case (Cons ev evs)
  then obtain s1 where s1: "drm_listener e ev s = Some s1" and rest: "dispatch e evs s1 = Some s'"
    by (auto split: option.splits)
  from Cons.IH[OF rest] drm_listener_frame[OF s1] show ?case by simp
qed

lemma dispatch_total:
  "drm_state s = Some ds \<Longrightarrow> \<exists>s' ds'. dispatch e evs s = Some s' \<and> drm_state s' = Some ds'"
proof (induction evs arbitrary: s ds)
  case Nil
  then show ?case by simp
next
  case (Cons ev evs)
  from drm_listener_total[OF Cons.prems] obtain s1 ds1
    where s1: "drm_listener e ev s = Some s1" and ds1: "drm_state s1 = Some ds1"
    by blast
  from Cons.IH[OF ds1] show ?case using s1 by simp
qed

lemma dispatch_auth:
  "dispatch e evs s = Some s' \<Longrightarrow>
     is_authenticated s' = (is_authenticated s \<or> Ev_authenticated \<in> set evs)"
proof (induction evs arbitrary: s)
  case Nil
  then show ?case by simp
next
  case (Cons ev evs)
  then obtain s1 where s1: "drm_listener e ev s = Some s1" and rest: "dispatch e evs s1 = Some s'"
    by (auto split: option.splits)
  from Cons.IH[OF rest] drm_listener_auth[OF s1] show ?case by auto
qed

lemma dispatch_fd:
  "dispatch e evs s = Some s' \<Longrightarrow> drm_state s = Some ds \<Longrightarrow>
     map_option fd (drm_state s') = Some (fd_after e evs (fd ds))"
proof (induction evs arbitrary: s ds)
  case Nil
  then show ?case by simp
next
  case (Cons ev evs)
  then obtain s1 where s1: "drm_listener e ev s = Some s1" and rest: "dispatch e evs s1 = Some s'"
    by (auto split: option.splits)
  from drm_listener_fd[OF s1 Cons.prems(2)] obtain ds1
    where ds1: "drm_state s1 = Some ds1" and f1: "fd ds1 = fd_after e [ev] (fd ds)"
    by auto
  from Cons.IH[OF rest ds1] f1 show ?case by (cases ev) simp_all
qed

lemma dispatch_calls:
  "dispatch e evs s = Some s' \<Longrightarrow> \<exists>cs. calls s' = calls s @ cs \<and> list_all callback_call cs"
proof (induction evs arbitrary: s)
  case Nil
  then show ?case by simp
next
  case (Cons ev evs)
  then obtain s1 where s1: "drm_listener e ev s = Some s1" and rest: "dispatch e evs s1 = Some s'"
    by (auto split: option.splits)
  from drm_listener_calls[OF s1] obtain cs1
    where c1: "calls s1 = calls s @ cs1" "list_all callback_call cs1" by blast
  from Cons.IH[OF rest] obtain cs2
    where c2: "calls s' = calls s1 @ cs2" "list_all callback_call cs2" by blast
  from c1 c2 have "calls s' = calls s @ (cs1 @ cs2) \<and> list_all callback_call (cs1 @ cs2)"
    by simp
  then show ?case by blast
qed

lemma fd_after_unusable:
  "\<forall>p. Ev_device p \<in> set evs \<longrightarrow> device_unusable e p \<Longrightarrow> fd_after e evs (- 1) = - 1"
proof (induction evs)
  case Nil
  then show ?case by simp
next
  case (Cons ev evs)
  have rest: "fd_after e evs (- 1) = - 1" using Cons by simp
  show ?case
  proof (cases ev)
    case (Ev_device p)
    with Cons.prems have "device_unusable e p" by simp
    then have "(case stat_res e p of None \<Rightarrow> - 1 | Some m \<Rightarrow> if S_ISCHR m then open_c e p else - 1) = - 1"
      by (auto simp add: device_unusable_def open_c_def split: option.splits)
    then show ?thesis using rest Ev_device by simp
  qed (simp_all add: rest)
qed

subsection \<open>The verdict of the initializer\<close>

lemma log_call_simps [simp]:
  "drm (log_call c s) = drm s" "is_authenticated (log_call c s) = is_authenticated s"
  "libEGL_handle (log_call c s) = libEGL_handle s" "drm_interface (log_call c s) = drm_interface s"
  "finalize (log_call c s) = finalize s" "vaGetDriverName (log_call c s) = vaGetDriverName s"
  "drm_state (log_call c s) = drm_state s" "calls (log_call c s) = calls s @ [c]"
  by (simp_all add: log_call_def)

lemma init_listen_cases:
  assumes ds: "drm_state s = Some ds"
  obtains (closed) s1 ds1 where
      "dispatch e (events_1 e) (log_call Call_wl_display_roundtrip (log_call (Call_wl_drm_add_listener p) s)) = Some s1"
      "drm_state s1 = Some ds1" "fd ds1 < 0" "init_listen e p s = Some (False, s1)"
  | (opened) s1 ds1 s2 ds2 where
      "dispatch e (events_1 e) (log_call Call_wl_display_roundtrip (log_call (Call_wl_drm_add_listener p) s)) = Some s1"
      "drm_state s1 = Some ds1" "0 \<le> fd ds1"
      "dispatch e (events_2 e) (log_call Call_wl_display_roundtrip s1) = Some s2"
      "drm_state s2 = Some ds2" "init_listen e p s = Some (is_authenticated s2, s2)"
proof -
  let ?s0 = "log_call Call_wl_display_roundtrip (log_call (Call_wl_drm_add_listener p) s)"
  have "drm_state ?s0 = Some ds" using ds by simp
  from dispatch_total[OF this, of e "events_1 e"] obtain s1 ds1
    where s1: "dispatch e (events_1 e) ?s0 = Some s1" and ds1: "drm_state s1 = Some ds1"
    by blast
  show thesis
  proof (cases "fd ds1 < 0")
    case True
    then have "init_listen e p s = Some (False, s1)"
      using s1 ds1 by (simp add: init_listen_def wl_display_roundtrip_def)
    with s1 ds1 True show thesis by (rule closed)
  next
    case False
    have "drm_state (log_call Call_wl_display_roundtrip s1) = Some ds1" using ds1 by simp
    from dispatch_total[OF this, of e "events_2 e"] obtain s2 ds2
      where s2: "dispatch e (events_2 e) (log_call Call_wl_display_roundtrip s1) = Some s2"
        and ds2: "drm_state s2 = Some ds2"
      by blast
    have "init_listen e p s = Some (is_authenticated s2, s2)"
      using s1 ds1 False s2 by (simp add: init_listen_def wl_display_roundtrip_def)
    with s1 ds1 False s2 ds2 show thesis by (intro opened) (simp_all add: not_less)
  qed
qed

lemma init_listen_verdict:
  assumes ds: "drm_state s = Some ds" and na: "\<not> is_authenticated s"
  shows "\<exists>s'. init_listen e p s
           = Some (0 \<le> fd_after e (events_1 e) (fd ds)
                   \<and> Ev_authenticated \<in> set (events_1 e @ events_2 e), s')"
proof (rule init_listen_cases[OF ds, of e p], goal_cases)
  case closed: (1 s1 ds1)
  from dispatch_fd[OF closed(1)] ds closed(2) have "fd ds1 = fd_after e (events_1 e) (fd ds)"
    by simp
  with closed show ?thesis by simp
next
  case opened: (2 s1 ds1 s2 ds2)
  from dispatch_fd[OF opened(1)] ds opened(2) have "fd ds1 = fd_after e (events_1 e) (fd ds)"
    by simp
  moreover from dispatch_auth[OF opened(1)] dispatch_auth[OF opened(4)] na
  have "is_authenticated s2 = (Ev_authenticated \<in> set (events_1 e @ events_2 e))"
    by auto
  ultimately show ?thesis using opened by simp
qed

lemma init_listen_frame:
  assumes ds: "drm_state s = Some ds" and r: "init_listen e p s = Some (b, s')"
  shows "drm s' = drm s \<and> libEGL_handle s' = libEGL_handle s
       \<and> drm_interface s' = drm_interface s \<and> finalize s' = finalize s
       \<and> vaGetDriverName s' = vaGetDriverName s"
proof (rule init_listen_cases[OF ds, of e p], goal_cases)
  case closed: (1 s1 ds1)
  from dispatch_frame[OF closed(1)] closed(4) r show ?thesis by simp
next
  case opened: (2 s1 ds1 s2 ds2)
  from dispatch_frame[OF opened(1)] dispatch_frame[OF opened(4)] opened(6) r
  show ?thesis by simp
qed

lemma init_listen_fd:
  assumes ds: "drm_state s = Some ds" and r: "init_listen e p s = Some (b, s')"
  shows "map_option fd (drm_state s')
         = Some (if fd_after e (events_1 e) (fd ds) < 0 then fd_after e (events_1 e) (fd ds)
                 else fd_after e (events_2 e) (fd_after e (events_1 e) (fd ds)))"
proof (rule init_listen_cases[OF ds, of e p], goal_cases)
  case closed: (1 s1 ds1)
  from dispatch_fd[OF closed(1)] ds closed(2) have "fd ds1 = fd_after e (events_1 e) (fd ds)"
    by simp
  with closed r show ?thesis by simp
next
  case opened: (2 s1 ds1 s2 ds2)
  from dispatch_fd[OF opened(1)] ds opened(2) have f1: "fd ds1 = fd_after e (events_1 e) (fd ds)"
    by simp
  from dispatch_fd[OF opened(4)] opened(2) have "map_option fd (drm_state s2) = Some (fd_after e (events_2 e) (fd ds1))"
    by simp
  with f1 opened r show ?thesis by simp
qed

text \<open>The initializer with its local bindings unfolded.\<close>

lemma init_bind_unfold:
  "init_bind e gid s =
     (case dlopen_res e of
        None \<Rightarrow> Some (False, (log_call (Call_dlopen None) s)\<lparr>libEGL_handle := None\<rparr>)
      | Some h \<Rightarrow>
          (case dlsym_res e of
             None \<Rightarrow> Some (False, (log_call (Call_dlsym h None)
                        ((log_call (Call_dlopen (Some h)) s)\<lparr>libEGL_handle := Some h\<rparr>))\<lparr>drm_interface := None\<rparr>)
           | Some i \<Rightarrow>
               (case bind_res e of
                  None \<Rightarrow> Some (False, (log_call (Call_wl_display_bind gid i None)
                        ((log_call (Call_dlsym h (Some i))
                        ((log_call (Call_dlopen (Some h)) s)\<lparr>libEGL_handle := Some h\<rparr>))\<lparr>drm_interface := Some i\<rparr>))\<lparr>drm := None\<rparr>)
                | Some p \<Rightarrow> init_listen e p ((log_call (Call_wl_display_bind gid i (Some p))
                        ((log_call (Call_dlsym h (Some i))
                        ((log_call (Call_dlopen (Some h)) s)\<lparr>libEGL_handle := Some h\<rparr>))\<lparr>drm_interface := Some i\<rparr>))\<lparr>drm := Some p\<rparr>))))"
  by (simp add: init_bind_def Let_def split: option.splits)

lemma init_prologue:
  "va_wayland_drm_init e s =
     (if \<not> calloc_ok e
      then Some (False, log_call (Call_calloc False)
             (s\<lparr>drm := None, is_authenticated := False,
                 finalize := Some Fn_va_wayland_drm_finalize,
                 vaGetDriverName := Some Fn_va_DisplayContextGetDriverName\<rparr>))
      else if get_global_1 e \<noteq> 0
      then init_bind e (get_global_1 e)
             (log_call (Call_wl_display_get_global (get_global_1 e))
               ((log_call (Call_calloc True)
                  (s\<lparr>drm := None, is_authenticated := False,
                      finalize := Some Fn_va_wayland_drm_finalize,
                      vaGetDriverName := Some Fn_va_DisplayContextGetDriverName\<rparr>))
                \<lparr>drm_state := Some \<lparr>fd = - 1, auth_type = 0\<rparr>\<rparr>))
      else if get_global_2 e \<noteq> 0
      then init_bind e (get_global_2 e)
             (log_call (Call_wl_display_get_global (get_global_2 e))
               (log_call Call_wl_display_roundtrip
                 (log_call (Call_wl_display_get_global (get_global_1 e))
                   ((log_call (Call_calloc True)
                      (s\<lparr>drm := None, is_authenticated := False,
                          finalize := Some Fn_va_wayland_drm_finalize,
                          vaGetDriverName := Some Fn_va_DisplayContextGetDriverName\<rparr>))
                    \<lparr>drm_state := Some \<lparr>fd = - 1, auth_type = 0\<rparr>\<rparr>))))
      else Some (False,
             log_call (Call_wl_display_get_global (get_global_2 e))
               (log_call Call_wl_display_roundtrip
                 (log_call (Call_wl_display_get_global (get_global_1 e))
                   ((log_call (Call_calloc True)
                      (s\<lparr>drm := None, is_authenticated := False,
                          finalize := Some Fn_va_wayland_drm_finalize,
                          vaGetDriverName := Some Fn_va_DisplayContextGetDriverName\<rparr>))
                    \<lparr>drm_state := Some \<lparr>fd = - 1, auth_type = 0\<rparr>\<rparr>)))))"
  by (simp add: va_wayland_drm_init_def Let_def)

lemma init_bind_verdict:
  assumes ds: "drm_state s = Some ds" and na: "\<not> is_authenticated s"
  shows "\<exists>s'. init_bind e gid s
           = Some (dlopen_res e \<noteq> None \<and> dlsym_res e \<noteq> None \<and> bind_res e \<noteq> None
                   \<and> 0 \<le> fd_after e (events_1 e) (fd ds)
                   \<and> Ev_authenticated \<in> set (events_1 e @ events_2 e), s')"
proof (cases "dlopen_res e")
  case None
  then show ?thesis by (simp add: init_bind_unfold)
next
  case h: (Some h)
  show ?thesis
  proof (cases "dlsym_res e")
    case None
    then show ?thesis using h by (simp add: init_bind_unfold)
  next
    case i: (Some i)
    show ?thesis
    proof (cases "bind_res e")
      case None
      then show ?thesis using h i by (simp add: init_bind_unfold)
    next
      case (Some p)
      let ?s = "(log_call (Call_wl_display_bind gid i (Some p))
                        ((log_call (Call_dlsym h (Some i))
                        ((log_call (Call_dlopen (Some h)) s)\<lparr>libEGL_handle := Some h\<rparr>))\<lparr>drm_interface := Some i\<rparr>))\<lparr>drm := Some p\<rparr>"
      have "drm_state ?s = Some ds" "\<not> is_authenticated ?s" using ds na by simp_all
      from init_listen_verdict[OF this, of e p] show ?thesis
        using h i Some by (simp add: init_bind_unfold)
    qed
  qed
qed

lemma init_verdict:
  "\<exists>s'. va_wayland_drm_init e s = Some (init_succeeds e, s')"
proof -
  have bind: "\<exists>s'. init_bind e gid s0
           = Some (dlopen_res e \<noteq> None \<and> dlsym_res e \<noteq> None \<and> bind_res e \<noteq> None
                   \<and> 0 \<le> fd_after e (events_1 e) (- 1)
                   \<and> Ev_authenticated \<in> set (events_1 e @ events_2 e), s')"
    if "drm_state s0 = Some \<lparr>fd = - 1, auth_type = 0\<rparr>" "\<not> is_authenticated s0" for s0 gid
    using init_bind_verdict[OF that, of e gid] by simp
  consider (nomem) "\<not> calloc_ok e"
    | (first) "calloc_ok e" "get_global_1 e \<noteq> 0"
    | (second) "calloc_ok e" "get_global_1 e = 0" "get_global_2 e \<noteq> 0"
    | (absent) "calloc_ok e" "get_global_1 e = 0" "get_global_2 e = 0"
    by blast
  then show ?thesis
  proof cases
    case nomem
    then show ?thesis by (simp add: init_prologue init_succeeds_def)
  next
    case first
    let ?s0 = "log_call (Call_wl_display_get_global (get_global_1 e))
               ((log_call (Call_calloc True)
                  (s\<lparr>drm := None, is_authenticated := False,
                      finalize := Some Fn_va_wayland_drm_finalize,
                      vaGetDriverName := Some Fn_va_DisplayContextGetDriverName\<rparr>))
                \<lparr>drm_state := Some \<lparr>fd = - 1, auth_type = 0\<rparr>\<rparr>)"
    have "drm_state ?s0 = Some \<lparr>fd = - 1, auth_type = 0\<rparr>" "\<not> is_authenticated ?s0"
      by simp_all
    from bind[OF this, of "get_global_1 e"] obtain s'
      where "init_bind e (get_global_1 e) ?s0
           = Some (dlopen_res e \<noteq> None \<and> dlsym_res e \<noteq> None \<and> bind_res e \<noteq> None
                   \<and> 0 \<le> fd_after e (events_1 e) (- 1)
                   \<and> Ev_authenticated \<in> set (events_1 e @ events_2 e), s')" ..
    moreover have "va_wayland_drm_init e s = init_bind e (get_global_1 e) ?s0"
      using first by (simp add: init_prologue)
    moreover have "(dlopen_res e \<noteq> None \<and> dlsym_res e \<noteq> None \<and> bind_res e \<noteq> None
                   \<and> 0 \<le> fd_after e (events_1 e) (- 1)
                   \<and> Ev_authenticated \<in> set (events_1 e @ events_2 e)) = init_succeeds e"
      using first unfolding init_succeeds_def by blast
    ultimately show ?thesis by (simp only:) blast
  next
    case second
    let ?s0 = "log_call (Call_wl_display_get_global (get_global_2 e))
               (log_call Call_wl_display_roundtrip
                 (log_call (Call_wl_display_get_global (get_global_1 e))
                   ((log_call (Call_calloc True)
                      (s\<lparr>drm := None, is_authenticated := False,
                          finalize := Some Fn_va_wayland_drm_finalize,
                          vaGetDriverName := Some Fn_va_DisplayContextGetDriverName\<rparr>))
                    \<lparr>drm_state := Some \<lparr>fd = - 1, auth_type = 0\<rparr>\<rparr>)))"
    have "drm_state ?s0 = Some \<lparr>fd = - 1, auth_type = 0\<rparr>" "\<not> is_authenticated ?s0"
      by simp_all
    from bind[OF this, of "get_global_2 e"] obtain s'
      where "init_bind e (get_global_2 e) ?s0
           = Some (dlopen_res e \<noteq> None \<and> dlsym_res e \<noteq> None \<and> bind_res e \<noteq> None
                   \<and> 0 \<le> fd_after e (events_1 e) (- 1)
                   \<and> Ev_authenticated \<in> set (events_1 e @ events_2 e), s')" ..
    moreover have "va_wayland_drm_init e s = init_bind e (get_global_2 e) ?s0"
      using second by (simp add: init_prologue)
    moreover have "(dlopen_res e \<noteq> None \<and> dlsym_res e \<noteq> None \<and> bind_res e \<noteq> None
                   \<and> 0 \<le> fd_after e (events_1 e) (- 1)
                   \<and> Ev_authenticated \<in> set (events_1 e @ events_2 e)) = init_succeeds e"
      using second unfolding init_succeeds_def by blast
    ultimately show ?thesis by (simp only:) blast
  next
    case absent
    then show ?thesis by (simp add: init_prologue init_succeeds_def)
  qed
qed

subsection \<open>Failure and success of the initializer\<close>

lemmas run_defs = va_wayland_drm_init_def init_bind_def init_listen_def wl_display_roundtrip_def
  drm_handle_device_def drm_handle_format_def drm_handle_authenticated_def log_call_def
  S_ISCHR_def open_c_def Let_def VA_DRM_AUTH_CUSTOM_def env_good_def ctx_fresh_def

lemma init_bind_frame:
  assumes ds: "drm_state s = Some ds" and r: "init_bind e gid s = Some (b, s')"
  shows "finalize s' = finalize s \<and> vaGetDriverName s' = vaGetDriverName s"
proof (cases "\<exists>h i p. dlopen_res e = Some h \<and> dlsym_res e = Some i \<and> bind_res e = Some p")
  case True
  then obtain h i p where hip: "dlopen_res e = Some h" "dlsym_res e = Some i" "bind_res e = Some p"
    by blast
  let ?s = "(log_call (Call_wl_display_bind gid i (Some p))
              ((log_call (Call_dlsym h (Some i))
              ((log_call (Call_dlopen (Some h)) s)\<lparr>libEGL_handle := Some h\<rparr>))\<lparr>drm_interface := Some i\<rparr>))\<lparr>drm := Some p\<rparr>"
  have "drm_state ?s = Some ds" using ds by simp
  moreover have "init_listen e p ?s = Some (b, s')"
    using r hip by (simp add: init_bind_unfold)
  ultimately have "finalize s' = finalize ?s \<and> vaGetDriverName s' = vaGetDriverName ?s"
    using init_listen_frame by blast
  then show ?thesis by simp
next
  case False
  then show ?thesis using r
    by (auto simp add: init_bind_unfold split: option.splits)
qed

lemma init_bind_closed:
  assumes ds: "drm_state s = Some ds" and f: "fd ds = - 1"
    and u: "fd_after e (events_1 e) (- 1) = - 1" and r: "init_bind e gid s = Some (b, s')"
  shows "map_option fd (drm_state s') = Some (- 1)"
proof (cases "\<exists>h i p. dlopen_res e = Some h \<and> dlsym_res e = Some i \<and> bind_res e = Some p")
  case True
  then obtain h i p where hip: "dlopen_res e = Some h" "dlsym_res e = Some i" "bind_res e = Some p"
    by blast
  let ?s = "(log_call (Call_wl_display_bind gid i (Some p))
              ((log_call (Call_dlsym h (Some i))
              ((log_call (Call_dlopen (Some h)) s)\<lparr>libEGL_handle := Some h\<rparr>))\<lparr>drm_interface := Some i\<rparr>))\<lparr>drm := Some p\<rparr>"
  have "drm_state ?s = Some ds" using ds by simp
  moreover have "init_listen e p ?s = Some (b, s')"
    using r hip by (simp add: init_bind_unfold)
  ultimately show ?thesis
    using init_listen_fd[of ?s ds e p b s'] f u by simp
next
  case False
  then show ?thesis using r ds f
    by (auto simp add: init_bind_unfold split: option.splits)
qed

lemma queried_simps [simp]:
  "drm (queried e s) = None" "\<not> is_authenticated (queried e s)"
  "libEGL_handle (queried e s) = libEGL_handle s" "drm_interface (queried e s) = drm_interface s"
  "finalize (queried e s) = Some Fn_va_wayland_drm_finalize"
  "vaGetDriverName (queried e s) = Some Fn_va_DisplayContextGetDriverName"
  "drm_state (queried e s) = Some \<lparr>fd = - 1, auth_type = 0\<rparr>"
  by (simp_all add: queried_def allocated_def)

lemma init_cases:
  obtains (nomem) "\<not> calloc_ok e"
      "va_wayland_drm_init e s = Some (False, log_call (Call_calloc False)
             (s\<lparr>drm := None, is_authenticated := False,
                 finalize := Some Fn_va_wayland_drm_finalize,
                 vaGetDriverName := Some Fn_va_DisplayContextGetDriverName\<rparr>))"
  | (absent) "calloc_ok e" "get_global_1 e = 0" "get_global_2 e = 0"
      "va_wayland_drm_init e s = Some (False, queried e s)"
  | (found) "calloc_ok e" "get_global_1 e \<noteq> 0 \<or> get_global_2 e \<noteq> 0"
      "va_wayland_drm_init e s
         = init_bind e (if get_global_1 e \<noteq> 0 then get_global_1 e else get_global_2 e) (queried e s)"
proof -
  consider "\<not> calloc_ok e" | "calloc_ok e" "get_global_1 e = 0" "get_global_2 e = 0"
    | "calloc_ok e" "get_global_1 e \<noteq> 0 \<or> get_global_2 e \<noteq> 0"
    by blast
  then show thesis
  proof cases
    case 1
    then show thesis by (intro nomem) (simp_all add: init_prologue)
  next
    case 2
    then show thesis by (intro absent) (simp_all add: init_prologue queried_def allocated_def)
  next
    case 3
    then show thesis by (intro found) (auto simp add: init_prologue queried_def allocated_def)
  qed
qed

lemma init_hooks:
  assumes r: "va_wayland_drm_init e s = Some (b, s')"
  shows "finalize s' = Some Fn_va_wayland_drm_finalize
       \<and> vaGetDriverName s' = Some Fn_va_DisplayContextGetDriverName"
proof (rule init_cases[of e s], goal_cases)
  case 1
  with r show ?case by auto
next
  case 2
  with r show ?case by auto
next
  case 3
  from 3(3) r have "init_bind e (if get_global_1 e \<noteq> 0 then get_global_1 e else get_global_2 e) (queried e s) = Some (b, s')"
    by simp
  from init_bind_frame[OF _ this] show ?case by simp
qed

lemma init_closed:
  assumes u: "fd_after e (events_1 e) (- 1) = - 1" and c: "calloc_ok e"
    and r: "va_wayland_drm_init e s = Some (b, s')"
  shows "map_option fd (drm_state s') = Some (- 1)"
proof (rule init_cases[of e s], goal_cases)
  case 1
  with c show ?case by simp
next
  case 2
  with r show ?case by auto
next
  case 3
  from 3(3) r have "init_bind e (if get_global_1 e \<noteq> 0 then get_global_1 e else get_global_2 e) (queried e s) = Some (b, s')"
    by simp
  from init_bind_closed[OF _ _ u this] show ?case by simp
qed

text \<open>
  Claim C9. For every environment and every context the initializer returns, and in the
  context it returns the finalize hook is \<^verbatim>\<open>va_wayland_drm_finalize\<close> and the driver-name hook is
  \<^verbatim>\<open>va_DisplayContextGetDriverName\<close>, whatever the verdict. The hooks are in place before the
  first step that can fail: when that step, the allocation, fails, the initializer returns
  false having made no other foreign call, with both hooks set.
\<close>

theorem init_installs_hooks:
  "\<exists>b s'. va_wayland_drm_init e s = Some (b, s')
     \<and> finalize s' = Some Fn_va_wayland_drm_finalize
     \<and> vaGetDriverName s' = Some Fn_va_DisplayContextGetDriverName
     \<and> (\<not> calloc_ok e \<longrightarrow> \<not> b \<and> new_calls s s' = [Call_calloc False])"
proof -
  from init_verdict obtain s' where r: "va_wayland_drm_init e s = Some (init_succeeds e, s')"
    by blast
  have "\<not> init_succeeds e \<and> new_calls s s' = [Call_calloc False]" if "\<not> calloc_ok e"
    using that r by (auto simp add: init_prologue new_calls_def init_succeeds_def)
  with r init_hooks[OF r] show ?thesis by blast
qed

theorem init_installs_hooks_witness:
  "\<not> calloc_ok env_no_state
   \<and> (\<exists>s'. va_wayland_drm_init env_no_state ctx_fresh = Some (False, s')
         \<and> finalize s' = Some Fn_va_wayland_drm_finalize
         \<and> vaGetDriverName s' = Some Fn_va_DisplayContextGetDriverName
         \<and> new_calls ctx_fresh s' = [Call_calloc False])"
  using init_installs_hooks[of env_no_state ctx_fresh]
  by (auto simp add: env_no_state_def env_good_def)

text \<open>
  Claim C4. If the authentication-confirmed event is delivered in neither of the two
  round-trips that follow the registration of the listener, the initializer returns false;
  the witness is a run in which the device was opened as descriptor 5.
\<close>

theorem init_fails_without_authentication:
  assumes "Ev_authenticated \<notin> set (events_1 e @ events_2 e)"
  shows "\<exists>s'. va_wayland_drm_init e s = Some (False, s')"
  using init_verdict[of e s] assms by (simp add: init_succeeds_def)

theorem init_fails_without_authentication_witness:
  "Ev_authenticated \<notin> set (events_1 env_unconfirmed @ events_2 env_unconfirmed)
   \<and> (\<exists>s'. va_wayland_drm_init env_unconfirmed ctx_fresh = Some (False, s')
         \<and> map_option fd (drm_state s') = Some 5)"
proof -
  have a: "Ev_authenticated \<notin> set (events_1 env_unconfirmed @ events_2 env_unconfirmed)"
    by (simp add: env_unconfirmed_def env_good_def)
  from init_fails_without_authentication[OF a, of ctx_fresh] obtain s'
    where r: "va_wayland_drm_init env_unconfirmed ctx_fresh = Some (False, s')" ..
  have "map_option (\<lambda>r. map_option fd (drm_state (snd r))) (va_wayland_drm_init env_unconfirmed ctx_fresh)
        = Some (Some 5)"
    by (simp add: run_defs env_unconfirmed_def)
  with r have "map_option fd (drm_state s') = Some 5" by simp
  with a r show ?thesis by blast
qed

text \<open>
  Claim C3. If every device path advertised in the first round-trip of the listener is
  unusable (\<^verbatim>\<open>stat\<close> fails, the file is not a character device, or \<^verbatim>\<open>open\<close> fails), the
  initializer returns false and the descriptor of the state it allocated is -1.
\<close>

theorem init_fails_on_unusable_device:
  assumes "\<forall>p. Ev_device p \<in> set (events_1 e) \<longrightarrow> device_unusable e p"
  shows "\<exists>s'. va_wayland_drm_init e s = Some (False, s')
          \<and> (calloc_ok e \<longrightarrow> map_option fd (drm_state s') = Some (- 1))"
proof -
  from fd_after_unusable[OF assms] have u: "fd_after e (events_1 e) (- 1) = - 1" .
  from init_verdict obtain s' where r: "va_wayland_drm_init e s = Some (init_succeeds e, s')"
    by blast
  have "\<not> init_succeeds e" using u by (simp add: init_succeeds_def)
  moreover have "map_option fd (drm_state s') = Some (- 1)" if "calloc_ok e"
    using init_closed[OF u that r] .
  ultimately show ?thesis using r by auto
qed

theorem init_fails_on_unusable_device_witness:
  "events_1 env_no_device = [Ev_device ''/dev/dri/card0'', Ev_format 0x34325258]
   \<and> device_unusable env_no_device ''/dev/dri/card0'' \<and> calloc_ok env_no_device
   \<and> (\<exists>s'. va_wayland_drm_init env_no_device ctx_fresh = Some (False, s')
          \<and> map_option fd (drm_state s') = Some (- 1))
   \<and> events_1 env_regular_file = [Ev_device ''/dev/dri/card0'', Ev_format 0x34325258]
   \<and> device_unusable env_regular_file ''/dev/dri/card0'' \<and> calloc_ok env_regular_file
   \<and> (\<exists>s'. va_wayland_drm_init env_regular_file ctx_fresh = Some (False, s')
          \<and> map_option fd (drm_state s') = Some (- 1))
   \<and> events_1 env_open_fails = [Ev_device ''/dev/dri/card0'', Ev_format 0x34325258]
   \<and> device_unusable env_open_fails ''/dev/dri/card0'' \<and> calloc_ok env_open_fails
   \<and> (\<exists>s'. va_wayland_drm_init env_open_fails ctx_fresh = Some (False, s')
          \<and> map_option fd (drm_state s') = Some (- 1))"
proof -
  have a: "\<forall>p. Ev_device p \<in> set (events_1 env_no_device) \<longrightarrow> device_unusable env_no_device p"
    by (simp add: env_no_device_def env_good_def device_unusable_def)
  have b: "\<forall>p. Ev_device p \<in> set (events_1 env_regular_file) \<longrightarrow> device_unusable env_regular_file p"
    by (simp add: env_regular_file_def env_good_def device_unusable_def S_ISCHR_def)
  have c: "\<forall>p. Ev_device p \<in> set (events_1 env_open_fails) \<longrightarrow> device_unusable env_open_fails p"
    by (simp add: env_open_fails_def env_good_def device_unusable_def)
  have ev: "events_1 env_no_device = [Ev_device ''/dev/dri/card0'', Ev_format 0x34325258]"
    "events_1 env_regular_file = [Ev_device ''/dev/dri/card0'', Ev_format 0x34325258]"
    "events_1 env_open_fails = [Ev_device ''/dev/dri/card0'', Ev_format 0x34325258]"
    "calloc_ok env_no_device" "calloc_ok env_regular_file" "calloc_ok env_open_fails"
    by (simp_all add: env_no_device_def env_regular_file_def env_open_fails_def env_good_def)
  show ?thesis
    using init_fails_on_unusable_device[OF a, of ctx_fresh]
      init_fails_on_unusable_device[OF b, of ctx_fresh]
      init_fails_on_unusable_device[OF c, of ctx_fresh] a b c ev
    by simp
qed

text \<open>
  Claim C2 does not hold as stated. In the first run the first registry query fails (it
  returns 0) and the initializer returns true, because the query is repeated after a
  round-trip. In the second run \<^verbatim>\<open>drmGetMagic\<close> fails and the initializer returns true: the
  return value of that call is not inspected.
\<close>

theorem init_unchecked_failures:
  "get_global_1 env_retry = 0
   \<and> Call_wl_display_get_global 0 \<in> set (init_calls env_retry ctx_fresh)
   \<and> map_option fst (va_wayland_drm_init env_retry ctx_fresh) = Some True
   \<and> fst (getmagic_res env_magic_fails 5) \<noteq> 0
   \<and> Call_drmGetMagic 5 (- 13) \<in> set (init_calls env_magic_fails ctx_fresh)
   \<and> map_option fst (va_wayland_drm_init env_magic_fails ctx_fresh) = Some True"
  by (simp add: init_calls_def new_calls_def run_defs env_retry_def env_magic_fails_def)

text \<open>
  Claim C2, amended. The initializer returns false whenever the allocation of the state
  fails, the registry has no \<^verbatim>\<open>wl_drm\<close> global in both queries, the library cannot be loaded,
  the symbol is not found, the bind yields no proxy, or every advertised device path fails
  one of the checks of the device callback (\<^verbatim>\<open>stat\<close>, character device, \<^verbatim>\<open>open\<close>).
\<close>

theorem init_checked_calls:
  assumes "\<not> calloc_ok e \<or> (get_global_1 e = 0 \<and> get_global_2 e = 0)
         \<or> dlopen_res e = None \<or> dlsym_res e = None \<or> bind_res e = None
         \<or> (\<forall>p. Ev_device p \<in> set (events_1 e) \<longrightarrow> device_unusable e p)"
  shows "\<exists>s'. va_wayland_drm_init e s = Some (False, s')"
proof -
  have "fd_after e (events_1 e) (- 1) = - 1"
    if "\<forall>p. Ev_device p \<in> set (events_1 e) \<longrightarrow> device_unusable e p"
    using fd_after_unusable[OF that] .
  with assms have "\<not> init_succeeds e"
    unfolding init_succeeds_def by auto
  with init_verdict[of e s] show ?thesis by simp
qed

theorem init_checked_calls_witness:
  "\<not> calloc_ok env_no_state
   \<and> (\<exists>s'. va_wayland_drm_init env_no_state ctx_fresh = Some (False, s'))
   \<and> get_global_1 env_no_global = 0 \<and> get_global_2 env_no_global = 0
   \<and> (\<exists>s'. va_wayland_drm_init env_no_global ctx_fresh = Some (False, s'))
   \<and> dlopen_res env_no_library = None
   \<and> (\<exists>s'. va_wayland_drm_init env_no_library ctx_fresh = Some (False, s'))
   \<and> dlsym_res env_no_symbol = None
   \<and> (\<exists>s'. va_wayland_drm_init env_no_symbol ctx_fresh = Some (False, s'))
   \<and> bind_res env_no_proxy = None
   \<and> (\<exists>s'. va_wayland_drm_init env_no_proxy ctx_fresh = Some (False, s'))
   \<and> device_unusable env_open_fails ''/dev/dri/card0''
   \<and> (\<exists>s'. va_wayland_drm_init env_open_fails ctx_fresh = Some (False, s'))"
proof -
  have dev: "\<forall>p. Ev_device p \<in> set (events_1 env_open_fails) \<longrightarrow> device_unusable env_open_fails p"
    by (simp add: env_open_fails_def env_good_def device_unusable_def)
  have du: "device_unusable env_open_fails ''/dev/dri/card0''"
    by (simp add: env_open_fails_def env_good_def device_unusable_def)
  have pre: "\<not> calloc_ok env_no_state"
    "get_global_1 env_no_global = 0 \<and> get_global_2 env_no_global = 0"
    "dlopen_res env_no_library = None" "dlsym_res env_no_symbol = None"
    "bind_res env_no_proxy = None"
    by (simp_all add: env_no_state_def env_no_global_def env_no_library_def env_no_symbol_def
        env_no_proxy_def env_good_def)
  show ?thesis
    using init_checked_calls[of env_no_state ctx_fresh] init_checked_calls[of env_no_global ctx_fresh]
      init_checked_calls[of env_no_library ctx_fresh] init_checked_calls[of env_no_symbol ctx_fresh]
      init_checked_calls[of env_no_proxy ctx_fresh] init_checked_calls[of env_open_fails ctx_fresh]
      pre dev du
    by simp
qed

subsection \<open>The order of the foreign calls\<close>

lemma callback_is_listen: "list_all callback_call cs \<Longrightarrow> list_all listen_call cs"
proof (induction cs)
  case Nil
  then show ?case by simp
next
  case (Cons c cs)
  then show ?case by (cases c) simp_all
qed

lemma init_listen_calls:
  assumes ds: "drm_state s = Some ds" and r: "init_listen e p s = Some (b, s')"
  shows "\<exists>cs. calls s' = calls s @ cs \<and> list_all listen_call cs"
proof (rule init_listen_cases[OF ds, of e p], goal_cases)
  case closed: (1 s1 ds1)
  from dispatch_calls[OF closed(1)] obtain cs
    where "calls s1 = calls s @ [Call_wl_drm_add_listener p, Call_wl_display_roundtrip] @ cs"
      and "list_all callback_call cs"
    by auto
  then have "calls s1 = calls s @ ([Call_wl_drm_add_listener p, Call_wl_display_roundtrip] @ cs)
      \<and> list_all listen_call ([Call_wl_drm_add_listener p, Call_wl_display_roundtrip] @ cs)"
    using callback_is_listen by simp
  then show ?case using closed(4) r by auto
next
  case opened: (2 s1 ds1 s2 ds2)
  from dispatch_calls[OF opened(1)] obtain cs
    where c1: "calls s1 = calls s @ [Call_wl_drm_add_listener p, Call_wl_display_roundtrip] @ cs"
      and l1: "list_all callback_call cs"
    by auto
  from dispatch_calls[OF opened(4)] obtain cs'
    where c2: "calls s2 = calls s1 @ [Call_wl_display_roundtrip] @ cs'"
      and l2: "list_all callback_call cs'"
    by auto
  let ?cs = "[Call_wl_drm_add_listener p, Call_wl_display_roundtrip] @ cs @ [Call_wl_display_roundtrip] @ cs'"
  have "calls s2 = calls s @ ?cs \<and> list_all listen_call ?cs"
    using c1 c2 callback_is_listen[OF l1] callback_is_listen[OF l2] by simp
  then show ?case using opened(6) r by auto
qed

lemma init_bind_calls:
  assumes ds: "drm_state s = Some ds" and r: "init_bind e gid s = Some (b, s')"
  shows "\<exists>cs. calls s' = calls s @ loader_calls e gid @ cs \<and> list_all listen_call cs"
proof (cases "\<exists>h i p. dlopen_res e = Some h \<and> dlsym_res e = Some i \<and> bind_res e = Some p")
  case True
  then obtain h i p where hip: "dlopen_res e = Some h" "dlsym_res e = Some i" "bind_res e = Some p"
    by blast
  let ?s = "(log_call (Call_wl_display_bind gid i (Some p))
              ((log_call (Call_dlsym h (Some i))
              ((log_call (Call_dlopen (Some h)) s)\<lparr>libEGL_handle := Some h\<rparr>))\<lparr>drm_interface := Some i\<rparr>))\<lparr>drm := Some p\<rparr>"
  have "drm_state ?s = Some ds" using ds by simp
  moreover have "init_listen e p ?s = Some (b, s')"
    using r hip by (simp add: init_bind_unfold)
  ultimately obtain cs where "calls s' = calls ?s @ cs" "list_all listen_call cs"
    using init_listen_calls by blast
  then have "calls s' = calls s @ loader_calls e gid @ cs \<and> list_all listen_call cs"
    using hip by (simp add: loader_calls_def)
  then show ?thesis by blast
next
  case False
  then have "calls s' = calls s @ loader_calls e gid @ [] \<and> list_all listen_call []"
    using r by (auto simp add: init_bind_unfold loader_calls_def split: option.splits)
  then show ?thesis by blast
qed

lemma init_calls_shape:
  "\<exists>cs. list_all listen_call cs \<and>
     init_calls e s =
       Call_calloc (calloc_ok e)
       # (if \<not> calloc_ok e then []
          else registry_calls e
               @ (if get_global_1 e = 0 \<and> get_global_2 e = 0 then []
                  else loader_calls e (if get_global_1 e \<noteq> 0 then get_global_1 e else get_global_2 e) @ cs))"
proof (rule init_cases[of e s], goal_cases)
  case 1
  then show ?case
    by (intro exI[of _ "[]"]) (simp add: init_calls_def new_calls_def)
next
  case 2
  then show ?case
    by (intro exI[of _ "[]"])
      (simp add: init_calls_def new_calls_def queried_def allocated_def registry_calls_def)
next
  case 3
  let ?gid = "if get_global_1 e \<noteq> 0 then get_global_1 e else get_global_2 e"
  from init_verdict[of e s] obtain s' where r: "va_wayland_drm_init e s = Some (init_succeeds e, s')"
    by blast
  with 3(3) have b: "init_bind e ?gid (queried e s) = Some (init_succeeds e, s')" by simp
  from init_bind_calls[OF _ b] obtain cs
    where cs: "calls s' = calls (queried e s) @ loader_calls e ?gid @ cs" "list_all listen_call cs"
    by auto
  have q: "calls (queried e s) = calls s @ Call_calloc True # registry_calls e"
    using 3(2) by (auto simp add: queried_def allocated_def registry_calls_def)
  have "init_calls e s = Call_calloc True # registry_calls e @ loader_calls e ?gid @ cs"
    using r cs(1) q by (simp add: init_calls_def new_calls_def)
  with 3(1,2) cs(2) show ?case
    by (intro exI[of _ cs]) auto
qed

lemma all_before_append:
  "all_before P Q (xs @ ys)
     = (all_before P Q xs \<and> all_before P Q ys \<and> (list_ex Q xs \<longrightarrow> \<not> list_ex P ys))"
  by (induction xs) auto

lemma listen_calls_neutral:
  assumes "list_all listen_call cs"
  shows "\<not> list_ex is_get_global cs \<and> \<not> list_ex is_dlopen cs \<and> \<not> list_ex is_dlsym cs"
  using assms
proof (induction cs)
  case Nil
  then show ?case by simp
next
  case (Cons c cs)
  then show ?case by (cases c) simp_all
qed

lemma all_before_none:
  "\<not> list_ex Q cs \<Longrightarrow> all_before P Q cs"
  by (induction cs) auto

text \<open>
  Claim C7, amended. In every run of the initializer the registry is queried before the
  library is loaded, and the library is loaded before the symbol is looked up; a symbol
  lookup implies a library load, and a library load implies that a registry query has found
  the global.
\<close>

theorem init_call_order:
  "all_before is_get_global is_dlopen (init_calls e s)
   \<and> all_before is_dlopen is_dlsym (init_calls e s)
   \<and> (list_ex is_dlsym (init_calls e s) \<longrightarrow> list_ex is_dlopen (init_calls e s))
   \<and> (list_ex is_dlopen (init_calls e s) \<longrightarrow>
        (get_global_1 e \<noteq> 0 \<and> Call_wl_display_get_global (get_global_1 e) \<in> set (init_calls e s))
        \<or> (get_global_2 e \<noteq> 0 \<and> Call_wl_display_get_global (get_global_2 e) \<in> set (init_calls e s)))"
proof -
  from init_calls_shape[of e s] obtain cs where l: "list_all listen_call cs"
    and shape: "init_calls e s =
       Call_calloc (calloc_ok e)
       # (if \<not> calloc_ok e then []
          else registry_calls e
               @ (if get_global_1 e = 0 \<and> get_global_2 e = 0 then []
                  else loader_calls e (if get_global_1 e \<noteq> 0 then get_global_1 e else get_global_2 e) @ cs))"
    by blast
  note n = listen_calls_neutral[OF l]
  have a1: "all_before is_get_global is_dlopen cs" "all_before is_dlopen is_dlsym cs"
    using n by (simp_all add: all_before_none)
  show ?thesis
    unfolding shape using n a1
    by (auto simp add: all_before_append registry_calls_def loader_calls_def split: option.splits)
qed

lemma good_run_calls:
  "init_calls env_good ctx_fresh =
     [Call_calloc True, Call_wl_display_get_global 7, Call_dlopen (Some 100),
      Call_dlsym 100 (Some 200), Call_wl_display_bind 7 200 (Some 300),
      Call_wl_drm_add_listener 300, Call_wl_display_roundtrip,
      Delivered (Ev_device ''/dev/dri/card0''), Call_stat ''/dev/dri/card0'' (Some 0x21B0),
      Call_open ''/dev/dri/card0'' 5, Call_drmGetMagic 5 0,
      Call_wl_drm_authenticate (Some 300) 42, Delivered (Ev_format 0x34325258),
      Call_wl_display_roundtrip, Delivered Ev_authenticated]"
  by (simp add: init_calls_def new_calls_def run_defs)

text \<open>
  Claim C7 does not hold as stated: in the run in which every step succeeds the registry
  query is the second entry of the log, before the library load and the symbol lookup.
\<close>

theorem registry_query_precedes_library_load:
  "init_calls env_good ctx_fresh =
     [Call_calloc True, Call_wl_display_get_global 7, Call_dlopen (Some 100),
      Call_dlsym 100 (Some 200), Call_wl_display_bind 7 200 (Some 300),
      Call_wl_drm_add_listener 300, Call_wl_display_roundtrip,
      Delivered (Ev_device ''/dev/dri/card0''), Call_stat ''/dev/dri/card0'' (Some 0x21B0),
      Call_open ''/dev/dri/card0'' 5, Call_drmGetMagic 5 0,
      Call_wl_drm_authenticate (Some 300) 42, Delivered (Ev_format 0x34325258),
      Call_wl_display_roundtrip, Delivered Ev_authenticated]
   \<and> \<not> all_before is_dlopen is_get_global (init_calls env_good ctx_fresh)
   \<and> \<not> all_before is_dlsym is_get_global (init_calls env_good ctx_fresh)"
  by (simp add: good_run_calls)

theorem init_call_order_witness:
  "list_ex is_dlopen (init_calls env_good ctx_fresh)
   \<and> list_ex is_dlsym (init_calls env_good ctx_fresh)
   \<and> get_global_1 env_good \<noteq> 0
   \<and> Call_wl_display_get_global (get_global_1 env_good) \<in> set (init_calls env_good ctx_fresh)
   \<and> all_before is_get_global is_dlopen (init_calls env_good ctx_fresh)
   \<and> all_before is_dlopen is_dlsym (init_calls env_good ctx_fresh)"
proof -
  have g: "get_global_1 env_good = 7" by (simp add: env_good_def)
  have "list_ex is_dlopen (init_calls env_good ctx_fresh)"
    "list_ex is_dlsym (init_calls env_good ctx_fresh)"
    "Call_wl_display_get_global 7 \<in> set (init_calls env_good ctx_fresh)"
    by (simp_all add: good_run_calls)
  then show ?thesis
    using init_call_order[of env_good ctx_fresh] unfolding g by simp
qed

subsection \<open>The invariant of the DRM state\<close>

lemma inv_logged:
  assumes "drm_state_inv t" and "drm_state t' = drm_state t" and "calls t' = calls t @ cs"
  shows "drm_state_inv t'"
  using assms by (auto simp add: drm_state_inv_def list_ex_iff split: option.splits)

lemma inv_callback:
  assumes inv: "drm_state_inv t" and cb: "drm_listener e ev t = Some t'"
  shows "drm_state_inv t'"
proof (cases ev)
  case (Ev_device p)
  with cb inv show ?thesis
    by (auto simp add: drm_handle_device_def drm_state_inv_def list_ex_iff Let_def
        log_call_def split: option.splits if_splits)
next
  case (Ev_format f)
  with cb have "drm_state t' = drm_state t" "calls t' = calls t @ [Delivered (Ev_format f)]"
    by (auto simp add: drm_handle_format_def)
  with inv show ?thesis by (rule inv_logged)
next
  case Ev_authenticated
  with cb obtain ds where ds: "drm_state t = Some ds"
    and t': "t' = t\<lparr>calls := calls t @ [Delivered Ev_authenticated], is_authenticated := True,
                   drm_state := Some (ds\<lparr>auth_type := VA_DRM_AUTH_CUSTOM\<rparr>)\<rparr>"
    by (auto simp add: drm_handle_authenticated_def Let_def log_call_def split: option.splits)
  from inv ds have "0 \<le> fd ds \<longrightarrow> list_ex (opened_as (fd ds)) (calls t)"
    by (simp add: drm_state_inv_def)
  then show ?thesis
    unfolding t' by (simp add: drm_state_inv_def)
qed

lemma reachable_inv: "reachable e s t \<Longrightarrow> drm_state_inv t"
proof (induction rule: reachable.induct)
  case alloc
  then show ?case by (simp add: drm_state_inv_def allocated_def)
next
  case (callback t ev t')
  then show ?case using inv_callback by blast
qed (erule inv_logged; simp)+

lemma reachable_dispatch:
  "reachable e s t \<Longrightarrow> dispatch e evs t = Some t' \<Longrightarrow> reachable e s t'"
proof (induction evs arbitrary: t)
  case Nil
  then show ?case by simp
next
  case (Cons ev evs)
  then obtain t1 where t1: "drm_listener e ev t = Some t1" and rest: "dispatch e evs t1 = Some t'"
    by (auto split: option.splits)
  from Cons.prems(1) t1 have "reachable e s t1" by (rule reachable.callback)
  from Cons.IH[OF this rest] show ?case .
qed

lemma reachable_init_listen:
  assumes re: "reachable e s t" and ds: "drm_state t = Some ds"
    and r: "init_listen e p t = Some (b, t')"
  shows "reachable e s t'"
proof (rule init_listen_cases[OF ds, of e p], goal_cases)
  case closed: (1 s1 ds1)
  have "reachable e s (log_call Call_wl_display_roundtrip (log_call (Call_wl_drm_add_listener p) t))"
    using re by (intro reachable.roundtrip reachable.listen)
  from reachable_dispatch[OF this closed(1)] closed(4) r show ?case by simp
next
  case opened: (2 s1 ds1 s2 ds2)
  have "reachable e s (log_call Call_wl_display_roundtrip (log_call (Call_wl_drm_add_listener p) t))"
    using re by (intro reachable.roundtrip reachable.listen)
  from reachable_dispatch[OF this opened(1)] have "reachable e s (log_call Call_wl_display_roundtrip s1)"
    by (rule reachable.roundtrip)
  from reachable_dispatch[OF this opened(4)] opened(6) r show ?case by simp
qed

lemma reachable_init_bind:
  assumes re: "reachable e s t" and ds: "drm_state t = Some ds"
    and r: "init_bind e gid t = Some (b, t')"
  shows "reachable e s t'"
proof -
  have l: "reachable e s ((log_call (Call_dlopen h) t)\<lparr>libEGL_handle := h\<rparr>)" for h
    using re by (rule reachable.load)
  have k: "reachable e s ((log_call (Call_dlsym h' i)
              ((log_call (Call_dlopen h) t)\<lparr>libEGL_handle := h\<rparr>))\<lparr>drm_interface := i\<rparr>)" for h h' i
    using l by (rule reachable.lookup)
  have m: "reachable e s ((log_call (Call_wl_display_bind gid i' p)
              ((log_call (Call_dlsym h' i)
              ((log_call (Call_dlopen h) t)\<lparr>libEGL_handle := h\<rparr>))\<lparr>drm_interface := i\<rparr>))\<lparr>drm := p\<rparr>)"
    for h h' i i' p
    using k by (rule reachable.bind)
  show ?thesis
  proof (cases "\<exists>h i p. dlopen_res e = Some h \<and> dlsym_res e = Some i \<and> bind_res e = Some p")
    case True
    then obtain h i p where hip: "dlopen_res e = Some h" "dlsym_res e = Some i" "bind_res e = Some p"
      by blast
    let ?t = "(log_call (Call_wl_display_bind gid i (Some p))
              ((log_call (Call_dlsym h (Some i))
              ((log_call (Call_dlopen (Some h)) t)\<lparr>libEGL_handle := Some h\<rparr>))\<lparr>drm_interface := Some i\<rparr>))\<lparr>drm := Some p\<rparr>"
    have "drm_state ?t = Some ds" using ds by simp
    moreover have "init_listen e p ?t = Some (b, t')"
      using r hip by (simp add: init_bind_unfold)
    ultimately show ?thesis using reachable_init_listen[OF m] by blast
  next
    case False
    then show ?thesis using r l k m
      by (auto simp add: init_bind_unfold split: option.splits)
  qed
qed

lemma reachable_queried: "calloc_ok e \<Longrightarrow> reachable e s (queried e s)"
  unfolding queried_def
  by (auto intro!: reachable.query reachable.roundtrip reachable.alloc)

lemma reachable_init:
  assumes c: "calloc_ok e" and r: "va_wayland_drm_init e s = Some (b, t)"
  shows "reachable e s t"
proof (rule init_cases[of e s], goal_cases)
  case 1
  with c show ?case by simp
next
  case 2
  with r reachable_queried[OF c, of s] show ?case by simp
next
  case 3
  from 3(3) r have "init_bind e (if get_global_1 e \<noteq> 0 then get_global_1 e else get_global_2 e) (queried e s) = Some (b, t)"
    by simp
  from reachable_init_bind[OF reachable_queried[OF c] _ this] show ?case by simp
qed

text \<open>
  Claim C5. Every context reached while the initializer runs, after any of its statements
  and after any callback of the listener, satisfies the invariant: a descriptor that is not
  negative is the result of a successful \<^verbatim>\<open>open\<close>, and an authentication type other than 0
  implies that the authentication-confirmed event was delivered. The context the initializer
  returns is among them; it satisfies the invariant also when the allocation fails in a
  context that had no state.
\<close>

theorem drm_state_invariant:
  "(reachable e s t \<longrightarrow> drm_state_inv t)
   \<and> (calloc_ok e \<longrightarrow>
        (\<exists>b t'. va_wayland_drm_init e s = Some (b, t') \<and> reachable e s t'))
   \<and> (calloc_ok e \<or> drm_state s = None \<longrightarrow>
        (\<exists>b t'. va_wayland_drm_init e s = Some (b, t') \<and> drm_state_inv t'))"
proof -
  from init_verdict[of e s] obtain t' where r: "va_wayland_drm_init e s = Some (init_succeeds e, t')"
    by blast
  have a: "reachable e s t'" if c: "calloc_ok e"
    using reachable_init[OF c r] .
  have b: "drm_state_inv t'" if "calloc_ok e \<or> drm_state s = None"
  proof (cases "calloc_ok e")
    case True
    from reachable_inv[OF a[OF True]] show ?thesis .
  next
    case False
    with that have "drm_state s = None" by simp
    with False r show ?thesis
      by (auto simp add: init_prologue drm_state_inv_def)
  qed
  from a b r reachable_inv show ?thesis by blast
qed

text \<open>The run in which every step succeeds, and the invariant on its result.\<close>

lemma good_run: "va_wayland_drm_init env_good ctx_fresh = Some (True, ctx_done)"
  by (simp add: run_defs ctx_done_def)

theorem drm_state_invariant_witness:
  "calloc_ok env_good \<and> drm_state ctx_fresh = None
   \<and> va_wayland_drm_init env_good ctx_fresh = Some (True, ctx_done)
   \<and> reachable env_good ctx_fresh ctx_done
   \<and> drm_state ctx_done = Some \<lparr>fd = 5, auth_type = 3\<rparr>
   \<and> drm_state_inv ctx_done"
proof -
  have c: "calloc_ok env_good" by (simp add: env_good_def)
  from drm_state_invariant[of env_good ctx_fresh ctx_done] c good_run
  have "reachable env_good ctx_fresh ctx_done" by auto
  moreover from this drm_state_invariant[of env_good ctx_fresh ctx_done]
  have "drm_state_inv ctx_done" by blast
  moreover have "drm_state ctx_done = Some \<lparr>fd = 5, auth_type = 3\<rparr>"
    by (simp add: ctx_done_def)
  moreover have "drm_state ctx_fresh = None" by (simp add: ctx_fresh_def)
  ultimately show ?thesis using c good_run by blast
qed

section \<open>The finalizer\<close>

lemma finalize_fields:
  "drm (va_wayland_drm_finalize s) = None" "\<not> is_authenticated (va_wayland_drm_finalize s)"
  "libEGL_handle (va_wayland_drm_finalize s) = None" "drm_state (va_wayland_drm_finalize s) = None"
  "drm_interface (va_wayland_drm_finalize s) = drm_interface s"
  "finalize (va_wayland_drm_finalize s) = finalize s"
  "vaGetDriverName (va_wayland_drm_finalize s) = vaGetDriverName s"
  by (simp_all add: va_wayland_drm_finalize_def Let_def split: option.splits)

lemma finalize_calls:
  "calls (va_wayland_drm_finalize s) = calls s @ release_calls s"
  by (simp add: va_wayland_drm_finalize_def release_calls_def Let_def split: option.splits)

lemma finalize_released:
  assumes "drm s = None" "\<not> is_authenticated s" "libEGL_handle s = None" "drm_state s = None"
  shows "va_wayland_drm_finalize s = s"
  using assms by (simp add: va_wayland_drm_finalize_def)

lemma finalize_twice:
  "va_wayland_drm_finalize (va_wayland_drm_finalize s) = va_wayland_drm_finalize s"
  by (rule finalize_released) (simp_all add: finalize_fields)

lemma held_append:
  "held rs (xs @ ys) = (case held rs xs of None \<Rightarrow> None | Some rs' \<Rightarrow> held rs' ys)"
  by (induction xs arbitrary: rs) (auto split: option.splits)

lemma held_neutral:
  assumes "\<forall>c \<in> set cs. releases c = None \<and> acquires c = None"
  shows "held rs cs = Some rs"
  using assms by (induction cs) auto

lemma accounted_neutral:
  assumes a: "accounted t" and n: "\<forall>c \<in> set cs. releases c = None \<and> acquires c = None"
    and f: "drm t' = drm t" "libEGL_handle t' = libEGL_handle t" "drm_state t' = drm_state t"
    and c: "calls t' = calls t @ cs"
  shows "accounted t'"
  using a f c held_neutral[OF n]
  by (auto simp add: accounted_def held_append owns_def split: option.splits)

lemma owns_more: "owns rs t \<Longrightarrow> owns (r # rs) t"
  by (auto simp add: owns_def split: option.splits)

lemma accounted_load:
  assumes "accounted t"
  shows "accounted ((log_call (Call_dlopen h) t)\<lparr>libEGL_handle := h\<rparr>)"
  using assms
  by (cases h) (auto simp add: accounted_def held_append owns_def split: option.splits)

lemma accounted_bind:
  assumes "accounted t"
  shows "accounted ((log_call (Call_wl_display_bind g i p) t)\<lparr>drm := p\<rparr>)"
  using assms
  by (cases p) (auto simp add: accounted_def held_append owns_def split: option.splits)

lemma accounted_step:
  assumes "held [] (calls t) = Some rs" and "calls t' = calls t @ cs"
    and "held rs cs = Some rs'" and "owns rs' t'"
  shows "accounted t'"
  using assms by (simp add: accounted_def held_append)

lemma accounted_callback:
  assumes a: "accounted t" and cb: "drm_listener e ev t = Some t'"
  shows "accounted t'"
proof -
  from a obtain rs where rs: "held [] (calls t) = Some rs" and o: "owns rs t"
    by (auto simp add: accounted_def split: option.splits)
  show ?thesis
  proof (cases ev)
    case (Ev_device p)
    show ?thesis
    proof (cases "\<exists>m. stat_res e p = Some m \<and> S_ISCHR m")
      case True
      then obtain m where m: "stat_res e p = Some m" "S_ISCHR m" by blast
      from cb Ev_device m obtain ds where ds: "drm_state t = Some ds"
        by (cases "drm_state t") (simp_all add: drm_handle_device_def Let_def)
      from o ds have st: "R_state \<in> set rs" by (simp add: owns_def)
      show ?thesis
      proof (cases "open_c e p < 0")
        case True
        let ?cs = "[Delivered (Ev_device p), Call_stat p (Some m), Call_open p (open_c e p)]"
        from cb Ev_device m ds True
        have t': "t' = t\<lparr>calls := calls t @ ?cs, drm_state := Some (ds\<lparr>fd := open_c e p\<rparr>)\<rparr>"
          by (auto simp add: drm_handle_device_def Let_def log_call_def)
        have "held rs ?cs = Some rs" using True by simp
        moreover have "owns rs t'" using o st True unfolding t' by (simp add: owns_def)
        moreover have "calls t' = calls t @ ?cs" unfolding t' by simp
        ultimately show ?thesis using rs accounted_step by blast
      next
        case False
        let ?cs = "[Delivered (Ev_device p), Call_stat p (Some m), Call_open p (open_c e p),
                    Call_drmGetMagic (open_c e p) (fst (getmagic_res e (open_c e p))),
                    Call_wl_drm_authenticate (drm t) (snd (getmagic_res e (open_c e p)))]"
        from cb Ev_device m ds False
        have t': "t' = t\<lparr>calls := calls t @ ?cs, drm_state := Some (ds\<lparr>fd := open_c e p\<rparr>)\<rparr>"
          by (auto simp add: drm_handle_device_def Let_def log_call_def)
        have "held rs ?cs = Some (R_descriptor (open_c e p) # rs)" using False by simp
        moreover have "owns (R_descriptor (open_c e p) # rs) t'"
          using owns_more[OF o] st unfolding t' by (simp add: owns_def)
        moreover have "calls t' = calls t @ ?cs" unfolding t' by simp
        ultimately show ?thesis using rs accounted_step by blast
      qed
    next
      case False
      then consider "stat_res e p = None" | m where "stat_res e p = Some m" "\<not> S_ISCHR m"
        by (cases "stat_res e p") auto
      then show ?thesis
      proof cases
        case 1
        let ?cs = "[Delivered (Ev_device p), Call_stat p None]"
        from cb Ev_device 1 have t': "t' = t\<lparr>calls := calls t @ ?cs\<rparr>"
          by (auto simp add: drm_handle_device_def log_call_def)
        have "held rs ?cs = Some rs" by simp
        moreover have "owns rs t'" using o unfolding t' by (simp add: owns_def)
        moreover have "calls t' = calls t @ ?cs" unfolding t' by simp
        ultimately show ?thesis using rs accounted_step by blast
      next
        case 2
        let ?cs = "[Delivered (Ev_device p), Call_stat p (Some m)]"
        from cb Ev_device 2 have t': "t' = t\<lparr>calls := calls t @ ?cs\<rparr>"
          by (auto simp add: drm_handle_device_def log_call_def Let_def)
        have "held rs ?cs = Some rs" by simp
        moreover have "owns rs t'" using o unfolding t' by (simp add: owns_def)
        moreover have "calls t' = calls t @ ?cs" unfolding t' by simp
        ultimately show ?thesis using rs accounted_step by blast
      qed
    qed
  next
    case (Ev_format f)
    let ?cs = "[Delivered (Ev_format f)]"
    from cb Ev_format have t': "t' = t\<lparr>calls := calls t @ ?cs\<rparr>"
      by (auto simp add: drm_handle_format_def log_call_def)
    have "held rs ?cs = Some rs" by simp
    moreover have "owns rs t'" using o unfolding t' by (simp add: owns_def)
    moreover have "calls t' = calls t @ ?cs" unfolding t' by simp
    ultimately show ?thesis using rs accounted_step by blast
  next
    case Ev_authenticated
    let ?cs = "[Delivered Ev_authenticated]"
    from cb Ev_authenticated obtain ds where ds: "drm_state t = Some ds"
      by (cases "drm_state t") (simp_all add: drm_handle_authenticated_def Let_def)
    from cb Ev_authenticated ds
    have t': "t' = t\<lparr>calls := calls t @ ?cs, is_authenticated := True,
                     drm_state := Some (ds\<lparr>auth_type := VA_DRM_AUTH_CUSTOM\<rparr>)\<rparr>"
      by (auto simp add: drm_handle_authenticated_def log_call_def Let_def)
    have "held rs ?cs = Some rs" by simp
    moreover have "owns rs t'" using o ds unfolding t' by (simp add: owns_def)
    moreover have "calls t' = calls t @ ?cs" unfolding t' by simp
    ultimately show ?thesis using rs accounted_step by blast
  qed
qed

lemma reachable_accounted:
  assumes z: "zeroed s"
  shows "reachable e s t \<Longrightarrow> accounted t"
proof (induction rule: reachable.induct)
  case alloc
  from z obtain rs where "held [] (calls s) = Some rs"
    by (auto simp add: zeroed_def safe_log_def)
  then show ?case using z
    by (simp add: accounted_def owns_def allocated_def zeroed_def held_append)
next
  case (query t g)
  from query.IH show ?case
    by (rule accounted_neutral[where cs = "[Call_wl_display_get_global g]"]) simp_all
next
  case (roundtrip t)
  from roundtrip.IH show ?case
    by (rule accounted_neutral[where cs = "[Call_wl_display_roundtrip]"]) simp_all
next
  case (load t h)
  from load.IH show ?case by (rule accounted_load)
next
  case (lookup t i h')
  from lookup.IH show ?case
    by (rule accounted_neutral[where cs = "[Call_dlsym h' i]"]) simp_all
next
  case (bind t p g i')
  from bind.IH show ?case by (rule accounted_bind)
next
  case (listen t p')
  from listen.IH show ?case
    by (rule accounted_neutral[where cs = "[Call_wl_drm_add_listener p']"]) simp_all
next
  case (callback t ev t')
  from callback.IH callback.hyps(2) show ?case by (rule accounted_callback)
qed

lemma finalize_safe:
  assumes "accounted t"
  shows "safe_log (calls (va_wayland_drm_finalize t))"
proof -
  from assms obtain rs where rs: "held [] (calls t) = Some rs" and o: "owns rs t"
    by (auto simp add: accounted_def split: option.splits)
  have "held rs (release_calls t) \<noteq> None"
    using o
    by (auto simp add: release_calls_def owns_def held_append split: option.splits)
  then show ?thesis
    using rs by (simp add: safe_log_def finalize_calls held_append)
qed

lemma init_accounted:
  assumes z: "zeroed s" and r: "va_wayland_drm_init e s = Some (b, t)"
  shows "accounted t"
proof (cases "calloc_ok e")
  case True
  from reachable_init[OF True r] show ?thesis by (rule reachable_accounted[OF z])
next
  case False
  from z obtain rs where "held [] (calls s) = Some rs"
    by (auto simp add: zeroed_def safe_log_def)
  with False r z show ?thesis
    by (auto simp add: init_prologue accounted_def owns_def zeroed_def held_append)
qed

text \<open>
  Claim C6. Running the finalizer twice gives the context that running it once gives, log
  included: the second run finds nothing to release. After the finalizer the proxy pointer,
  the library handle and the state pointer are null and the authenticated flag is clear. The
  finalizer releases exactly the resources that are present: the proxy if the pointer is not
  null, the library if the handle is not null, the descriptor if the state exists and its
  descriptor is not negative (the field is set to -1 before the state is freed), and the
  state if it exists. After the initializer has run on a context without library handle and
  without state (as the caller's zero-filled allocation or an earlier finalizer leaves it),
  with any verdict and so after a failure at any step, every release of the finalizer is of
  a resource acquired before and not yet released.
\<close>

theorem finalize_idempotent_and_safe:
  "va_wayland_drm_finalize (va_wayland_drm_finalize s) = va_wayland_drm_finalize s
   \<and> drm (va_wayland_drm_finalize s) = None
   \<and> \<not> is_authenticated (va_wayland_drm_finalize s)
   \<and> libEGL_handle (va_wayland_drm_finalize s) = None
   \<and> drm_state (va_wayland_drm_finalize s) = None
   \<and> new_calls s (va_wayland_drm_finalize s) = release_calls s
   \<and> (zeroed s \<longrightarrow>
        (\<exists>b t. va_wayland_drm_init e s = Some (b, t)
           \<and> safe_log (calls (va_wayland_drm_finalize t))))"
proof -
  have "\<exists>b t. va_wayland_drm_init e s = Some (b, t) \<and> safe_log (calls (va_wayland_drm_finalize t))"
    if z: "zeroed s"
  proof -
    from init_verdict[of e s] obtain t where r: "va_wayland_drm_init e s = Some (init_succeeds e, t)"
      by blast
    from finalize_safe[OF init_accounted[OF z r]] r show ?thesis by blast
  qed
  then show ?thesis
    by (simp add: finalize_twice finalize_fields finalize_calls new_calls_def)
qed

theorem finalize_idempotent_and_safe_witness:
  "zeroed ctx_fresh
   \<and> (\<exists>t. va_wayland_drm_init env_no_state ctx_fresh = Some (False, t)
         \<and> release_calls t = []
         \<and> safe_log (calls (va_wayland_drm_finalize t)))
   \<and> (\<exists>t. va_wayland_drm_init env_no_library ctx_fresh = Some (False, t)
         \<and> release_calls t = [Call_free \<lparr>fd = - 1, auth_type = 0\<rparr>]
         \<and> safe_log (calls (va_wayland_drm_finalize t)))
   \<and> (\<exists>t. va_wayland_drm_init env_unconfirmed ctx_fresh = Some (False, t)
         \<and> release_calls t = [Call_wl_drm_destroy 300, Call_dlclose 100, Call_close 5,
                               Call_free \<lparr>fd = - 1, auth_type = 0\<rparr>]
         \<and> safe_log (calls (va_wayland_drm_finalize t)))"
proof -
  have z: "zeroed ctx_fresh" by (simp add: zeroed_def safe_log_def ctx_fresh_def)
  have a: "\<exists>t. va_wayland_drm_init env_no_state ctx_fresh = Some (False, t)
         \<and> release_calls t = []
         \<and> safe_log (calls (va_wayland_drm_finalize t))"
  proof -
    from finalize_idempotent_and_safe[of ctx_fresh env_no_state] z obtain b t
      where r: "va_wayland_drm_init env_no_state ctx_fresh = Some (b, t)"
        and s: "safe_log (calls (va_wayland_drm_finalize t))"
      by blast
    have "map_option (\<lambda>r. (fst r, release_calls (snd r))) (va_wayland_drm_init env_no_state ctx_fresh)
          = Some (False, [])"
      by (simp add: run_defs env_no_state_def release_calls_def)
    with r s show ?thesis by auto
  qed
  have b: "\<exists>t. va_wayland_drm_init env_no_library ctx_fresh = Some (False, t)
         \<and> release_calls t = [Call_free \<lparr>fd = - 1, auth_type = 0\<rparr>]
         \<and> safe_log (calls (va_wayland_drm_finalize t))"
  proof -
    from finalize_idempotent_and_safe[of ctx_fresh env_no_library] z obtain b t
      where r: "va_wayland_drm_init env_no_library ctx_fresh = Some (b, t)"
        and s: "safe_log (calls (va_wayland_drm_finalize t))"
      by blast
    have "map_option (\<lambda>r. (fst r, release_calls (snd r))) (va_wayland_drm_init env_no_library ctx_fresh)
          = Some (False, [Call_free \<lparr>fd = - 1, auth_type = 0\<rparr>])"
      by (simp add: run_defs env_no_library_def release_calls_def)
    with r s show ?thesis by auto
  qed
  have c: "\<exists>t. va_wayland_drm_init env_unconfirmed ctx_fresh = Some (False, t)
         \<and> release_calls t = [Call_wl_drm_destroy 300, Call_dlclose 100, Call_close 5,
                               Call_free \<lparr>fd = - 1, auth_type = 0\<rparr>]
         \<and> safe_log (calls (va_wayland_drm_finalize t))"
  proof -
    from finalize_idempotent_and_safe[of ctx_fresh env_unconfirmed] z obtain b t
      where r: "va_wayland_drm_init env_unconfirmed ctx_fresh = Some (b, t)"
        and s: "safe_log (calls (va_wayland_drm_finalize t))"
      by blast
    have "map_option (\<lambda>r. (fst r, release_calls (snd r))) (va_wayland_drm_init env_unconfirmed ctx_fresh)
          = Some (False, [Call_wl_drm_destroy 300, Call_dlclose 100, Call_close 5,
                               Call_free \<lparr>fd = - 1, auth_type = 0\<rparr>])"
      by (simp add: run_defs env_unconfirmed_def release_calls_def)
    with r s show ?thesis by auto
  qed
  from z a b c show ?thesis by blast
qed

end
